theory Spec2Isabelle
  imports Main "HOL-Library.Char_ord" "HOL-Library.List_Lexorder" "HOL-Library.Multiset"
    "HOL-Library.Word"
begin

section \<open>foldermd: the data model\<close>

text \<open>
  Strings are Go strings: sequences of bytes (\<open>char\<close> is a byte). The glyphs of the
  source are written out as their UTF-8 bytes. A Go \<open>error\<close> is identified with its
  message; \<open>nil\<close> is \<open>None\<close>.
\<close>

type_synonym error = string

text \<open>The struct \<open>Config\<close> of main.go. \<open>maxDepth\<close> is a Go \<open>int\<close>; depths stay far below
  its range, so it is an unbounded integer here.\<close>

record Config =
  includeFiles :: bool
  includeContent :: bool
  outputFile :: string
  ignorePatterns :: "string list"
  maxDepth :: int
  showHidden :: bool
  targetDir :: string

text \<open>
  What the program can observe of one non-directory entry (a regular file, a symbolic
  link, a device): its name, the result of \<open>d.Info()\<close> (the size, an \<open>int64\<close>, read
  with \<open>sint\<close>), whether \<open>os.Open\<close> fails, whether the first \<open>Read\<close> on the handle fails, its bytes, and whether
  \<open>os.ReadFile\<close> fails. The outcomes are independent fields because the program asks
  for them in separate system calls.
\<close>

record leaf =
  f_name :: string
  f_info :: "error + 64 word"
  f_open_err :: "error option"
  f_read_err :: "error option"
  f_data :: string
  f_readfile_err :: "error option"

text \<open>
  A directory tree as the walks see it: a directory carries its name, the error of
  \<open>os.ReadDir\<close> on it (if any) and the entries \<open>os.ReadDir\<close> returned, in the order
  returned (by file name).
\<close>

datatype node = File leaf | Dir string "error option" "node list"

fun Name :: "node \<Rightarrow> string" where
  "Name (File f) = f_name f"
| "Name (Dir n e ks) = n"

fun IsDir :: "node \<Rightarrow> bool" where
  "IsDir (File f) = False"
| "IsDir (Dir n e ks) = True"

text \<open>\<open>os.ReadDir\<close>: on an error the caller in \<open>writeTree\<close> drops the entries.\<close>

fun ReadDir :: "node \<Rightarrow> error + node list" where
  "ReadDir (File f) = Inl ''not a directory''"
| "ReadDir (Dir n (Some e) ks) = Inl e"
| "ReadDir (Dir n None ks) = Inr ks"

text \<open>
  The environment of a run: the functions of Go's standard library whose code is not
  part of the repository and is not modelled here (\<open>filepath.Match\<close>, \<open>strings.ToLower\<close>,
  the \<open>%.1f\<close> rendering of \<open>float64(size)/float64(div)\<close>), and what the run reads from
  the outside world (the clock, the working directory, whether the output file can be
  created).
\<close>

record env =
  Match :: "string \<Rightarrow> string \<Rightarrow> bool \<times> error option"
  ToLower :: "string \<Rightarrow> string"
  FormatFloat1 :: "int \<Rightarrow> int \<Rightarrow> string"
  Now :: string
  Getwd :: string
  CreateErr :: "error option"

section \<open>Library functions that are modelled\<close>

subsection \<open>strings.TrimSpace\<close>

text \<open>
  The UTF-8 encodings of the runes for which \<open>unicode.IsSpace\<close> holds: tab, line feed,
  vertical tab, form feed, carriage return, space, U+0085, U+00A0, U+1680,
  U+2000 to U+200A, U+2028, U+2029, U+202F, U+205F, U+3000.
\<close>

definition spaceRunes :: "string list" where
  "spaceRunes =
    [[CHR 0x09], [CHR 0x0A], [CHR 0x0B], [CHR 0x0C], [CHR 0x0D], [CHR 0x20],
     [CHR 0xC2, CHR 0x85], [CHR 0xC2, CHR 0xA0], [CHR 0xE1, CHR 0x9A, CHR 0x80],
     [CHR 0xE2, CHR 0x80, CHR 0x80], [CHR 0xE2, CHR 0x80, CHR 0x81],
     [CHR 0xE2, CHR 0x80, CHR 0x82], [CHR 0xE2, CHR 0x80, CHR 0x83],
     [CHR 0xE2, CHR 0x80, CHR 0x84], [CHR 0xE2, CHR 0x80, CHR 0x85],
     [CHR 0xE2, CHR 0x80, CHR 0x86], [CHR 0xE2, CHR 0x80, CHR 0x87],
     [CHR 0xE2, CHR 0x80, CHR 0x88], [CHR 0xE2, CHR 0x80, CHR 0x89],
     [CHR 0xE2, CHR 0x80, CHR 0x8A], [CHR 0xE2, CHR 0x80, CHR 0xA8],
     [CHR 0xE2, CHR 0x80, CHR 0xA9], [CHR 0xE2, CHR 0x80, CHR 0xAF],
     [CHR 0xE2, CHR 0x81, CHR 0x9F], [CHR 0xE3, CHR 0x80, CHR 0x80]]"

text \<open>The width of the white-space rune a string starts with, 0 when it starts with none.\<close>

definition runeWidth :: "string list \<Rightarrow> string \<Rightarrow> nat" where
  "runeWidth rs s = (case find (\<lambda>r. take (length r) s = r) rs of Some r \<Rightarrow> length r | None \<Rightarrow> 0)"

function stripRunes :: "string list \<Rightarrow> string \<Rightarrow> string" where
  "stripRunes rs s =
     (if runeWidth rs s = 0 \<or> s = [] then s else stripRunes rs (drop (runeWidth rs s) s))"
  by pat_completeness auto
termination
  by (relation "measure (\<lambda>(rs, s). length s)") auto

declare stripRunes.simps [simp del]

definition TrimLeft :: "string \<Rightarrow> string" where
  "TrimLeft s = stripRunes spaceRunes s"

text \<open>From the right the same runes are removed: the bytes after the first of each
  encoding are continuation bytes, so the last rune of a string is a white-space rune
  exactly when the string ends with one of the encodings.\<close>

definition TrimRight :: "string \<Rightarrow> string" where
  "TrimRight s = rev (stripRunes (map rev spaceRunes) (rev s))"

definition TrimSpace :: "string \<Rightarrow> string" where
  "TrimSpace s = TrimRight (TrimLeft s)"

subsection \<open>strings.HasPrefix, strings.Contains with a one-byte argument\<close>

definition HasPrefix :: "string \<Rightarrow> string \<Rightarrow> bool" where
  "HasPrefix s p = (take (length p) s = p)"

definition ContainsByte :: "string \<Rightarrow> char \<Rightarrow> bool" where
  "ContainsByte s c = (c \<in> set s)"

subsection \<open>A glob matcher for closed examples\<close>

text \<open>
  \<open>filepath.Match\<close> is a parameter of the model (\<open>Match\<close> of the environment). Closed
  examples need one concrete matcher: \<open>globMatch\<close> covers the patterns made of literal
  bytes, \<open>*\<close> (any run of bytes other than the separator) and \<open>?\<close> (one byte other than
  the separator; \<open>filepath.Match\<close> takes one rune, the same on ASCII names). Bracket
  classes and escapes are outside this fragment: a pattern with \<open>[\<close> or a backslash is
  answered with the error \<open>filepath.Match\<close> gives for a malformed pattern, which is
  right for the unterminated class of the examples below.
\<close>

fun globBytes :: "string \<Rightarrow> string \<Rightarrow> bool" where
  "globBytes [] n = (n = [])"
| "globBytes (c # p) n =
     (if c = CHR ''*'' then
        (globBytes p n \<or> (case n of [] \<Rightarrow> False | x # xs \<Rightarrow> x \<noteq> CHR ''/'' \<and> globBytes (c # p) xs))
      else if c = CHR ''?'' then
        (case n of [] \<Rightarrow> False | x # xs \<Rightarrow> x \<noteq> CHR ''/'' \<and> globBytes p xs)
      else (case n of [] \<Rightarrow> False | x # xs \<Rightarrow> x = c \<and> globBytes p xs))"

definition ErrBadPattern :: error where
  "ErrBadPattern = ''syntax error in pattern''"

definition globMatch :: "string \<Rightarrow> string \<Rightarrow> bool \<times> error option" where
  "globMatch p n =
     (if CHR ''['' \<in> set p \<or> CHR 0x5C \<in> set p then (False, Some ErrBadPattern)
      else (globBytes p n, None))"

section \<open>The matcher: shouldIgnore\<close>

text \<open>
  The loop of \<open>shouldIgnore\<close> over \<open>config.ignorePatterns\<close>: the pattern is trimmed,
  compared with the name, and only a pattern with a \<open>*\<close> is given to \<open>filepath.Match\<close>,
  whose error is dropped (\<open>matched, _ := ...\<close>).
\<close>

fun shouldIgnoreLoop :: "env \<Rightarrow> string \<Rightarrow> string list \<Rightarrow> bool" where
  "shouldIgnoreLoop E name [] = False"
| "shouldIgnoreLoop E name (pattern # rest) =
     (let pattern = TrimSpace pattern in
      if pattern = name then True
      else if ContainsByte pattern (CHR ''*'') \<and> fst (Match E pattern name) then True
      else shouldIgnoreLoop E name rest)"

definition shouldIgnore :: "env \<Rightarrow> string \<Rightarrow> Config \<Rightarrow> bool" where
  "shouldIgnore E name config = shouldIgnoreLoop E name (ignorePatterns config)"

section \<open>The classifier: isTextFile\<close>

text \<open>
  \<open>file.Read(buffer)\<close> on a fresh handle: the number of bytes read, the buffer
  afterwards (allocated zeroed, the bytes read at its front) and the error. A read at
  the end of the file returns 0 and \<open>io.EOF\<close>.
\<close>

definition Read :: "leaf \<Rightarrow> nat \<Rightarrow> nat \<times> string \<times> error option" where
  "Read f len =
     (case f_read_err f of
        Some e \<Rightarrow> (0, replicate len (CHR 0x00), Some e)
      | None \<Rightarrow>
          if f_data f = [] then (0, replicate len (CHR 0x00), Some ''EOF'')
          else (min len (length (f_data f)),
                take len (f_data f) @ replicate (len - length (f_data f)) (CHR 0x00), None))"

text \<open>The loop \<open>for i := 0; i < n; i++\<close> that looks for a null byte.\<close>

function nullByteFrom :: "string \<Rightarrow> nat \<Rightarrow> nat \<Rightarrow> bool" where
  "nullByteFrom buffer n i =
     (if i < n then (if buffer ! i = CHR 0x00 then True else nullByteFrom buffer n (i + 1))
      else False)"
  by pat_completeness auto
termination
  by (relation "measure (\<lambda>(buffer, n, i). n - i)") auto

declare nullByteFrom.simps [simp del]

definition isTextFile :: "leaf \<Rightarrow> bool" where
  "isTextFile f =
     (case f_open_err f of
        Some e \<Rightarrow> False
      | None \<Rightarrow>
          (case Read f 512 of (n, buffer, err) \<Rightarrow>
             if err \<noteq> None \<and> n = 0 then False
             else if nullByteFrom buffer n 0 then False
             else True))"

section \<open>The order of the tree renderer\<close>

text \<open>The comparison handed to \<open>sort.Slice\<close> in \<open>writeTree\<close>.\<close>

definition less_entry :: "node \<Rightarrow> node \<Rightarrow> bool" where
  "less_entry a b = (if IsDir a \<noteq> IsDir b then IsDir a else Name a < Name b)"

text \<open>
  \<open>sort.Slice\<close> is not stable and its algorithm is not part of the repository; it is
  modelled by insertion sort with the same comparison. The entries of one directory
  have distinct names, and for those the result does not depend on the algorithm
  (\<open>sortEntries_unique\<close> below).
\<close>

fun insertEntry :: "node \<Rightarrow> node list \<Rightarrow> node list" where
  "insertEntry x [] = [x]"
| "insertEntry x (y # ys) = (if less_entry y x then y # insertEntry x ys else x # y # ys)"

fun sortEntries :: "node list \<Rightarrow> node list" where
  "sortEntries [] = []"
| "sortEntries (x # xs) = insertEntry x (sortEntries xs)"


lemma size_list_insertEntry [simp]:
  "size_list size (insertEntry x ys) = size_list size (x # ys)"
  by (induction ys) auto

lemma size_list_sortEntries [simp]:
  "size_list size (sortEntries xs) = size_list size xs"
  by (induction xs) auto

section \<open>Formatting\<close>

definition nl :: string where
  "nl = [CHR 0x0A]"

text \<open>The verb \<open>%d\<close>.\<close>

function natDigits :: "nat \<Rightarrow> string" where
  "natDigits n =
     (if n < 10 then [''0123456789'' ! n] else natDigits (n div 10) @ [''0123456789'' ! (n mod 10)])"
  by pat_completeness auto
termination
  by (relation "measure (\<lambda>n. n)") auto

declare natDigits.simps [simp del]

definition FormatInt :: "int \<Rightarrow> string" where
  "FormatInt i = (if i < 0 then CHR ''-'' # natDigits (nat (- i)) else natDigits (nat i))"

text \<open>The verb \<open>%t\<close>.\<close>

definition FormatBool :: "bool \<Rightarrow> string" where
  "FormatBool b = (if b then ''true'' else ''false'')"

text \<open>\<open>strings.Join\<close>.\<close>

fun JoinStrings :: "string list \<Rightarrow> string \<Rightarrow> string" where
  "JoinStrings [] sep = []"
| "JoinStrings [x] sep = x"
| "JoinStrings (x # y # ys) sep = x @ sep @ JoinStrings (y # ys) sep"

text \<open>\<open>strings.Split\<close> with a separator of one byte.\<close>

fun Split :: "string \<Rightarrow> char \<Rightarrow> string list" where
  "Split [] sep = [[]]"
| "Split (c # cs) sep =
     (if c = sep then [] # Split cs sep
      else (c # hd (Split cs sep)) # tl (Split cs sep))"

text \<open>
  The loop of \<open>formatFileSize\<close>: \<open>for n := size / unit; n >= unit; n /= unit\<close>, with
  \<open>div\<close> and \<open>exp\<close> as its state. For an \<open>int64\<close> size the exponent stays below 6, so
  the index into \<open>"KMGTPE"\<close> is in range (\<open>sizeLoop_exp\<close> below).
\<close>

function sizeLoop :: "int \<Rightarrow> int \<Rightarrow> nat \<Rightarrow> int \<times> nat" where
  "sizeLoop n d exp = (if n \<ge> 1024 then sizeLoop (n div 1024) (d * 1024) (exp + 1) else (d, exp))"
  by pat_completeness auto
termination
  by (relation "measure (\<lambda>(n, d, exp). nat n)") auto

declare sizeLoop.simps [simp del]

definition formatFileSize :: "env \<Rightarrow> int \<Rightarrow> string" where
  "formatFileSize E sz =
     (if sz < 1024 then FormatInt sz @ '' B''
      else (case sizeLoop (sz div 1024) 1024 0 of
              (d, exp) \<Rightarrow> FormatFloat1 E sz d @ '' '' @ [''KMGTPE'' ! exp] @ ''B''))"

definition languages :: "(string \<times> string) list" where
  "languages =
    [(''.go'', ''go''), (''.py'', ''python''), (''.js'', ''javascript''),
     (''.ts'', ''typescript''), (''.jsx'', ''jsx''), (''.tsx'', ''tsx''),
     (''.java'', ''java''), (''.c'', ''c''), (''.cpp'', ''cpp''), (''.cc'', ''cpp''),
     (''.cxx'', ''cpp''), (''.h'', ''c''), (''.hpp'', ''cpp''), (''.hxx'', ''cpp''),
     (''.rs'', ''rust''), (''.php'', ''php''), (''.rb'', ''ruby''), (''.sh'', ''bash''),
     (''.bash'', ''bash''), (''.zsh'', ''zsh''), (''.fish'', ''fish''),
     (''.ps1'', ''powershell''), (''.html'', ''html''), (''.htm'', ''html''),
     (''.css'', ''css''), (''.scss'', ''scss''), (''.sass'', ''sass''), (''.less'', ''less''),
     (''.xml'', ''xml''), (''.json'', ''json''), (''.yaml'', ''yaml''), (''.yml'', ''yaml''),
     (''.toml'', ''toml''), (''.ini'', ''ini''), (''.cfg'', ''ini''), (''.conf'', ''ini''),
     (''.md'', ''markdown''), (''.txt'', ''text''), (''.sql'', ''sql''), (''.r'', ''r''),
     (''.m'', ''matlab''), (''.swift'', ''swift''), (''.kt'', ''kotlin''),
     (''.kts'', ''kotlin''), (''.scala'', ''scala''), (''.clj'', ''clojure''),
     (''.cljs'', ''clojure''), (''.hs'', ''haskell''), (''.elm'', ''elm''),
     (''.ex'', ''elixir''), (''.exs'', ''elixir''), (''.erl'', ''erlang''),
     (''.dart'', ''dart''), (''.lua'', ''lua''), (''.pl'', ''perl''), (''.vim'', ''vim''),
     (''.dockerfile'', ''dockerfile''), (''.gitignore'', ''gitignore''),
     (''.env'', ''bash''), (''.makefile'', ''makefile''), (''.cmake'', ''cmake'')]"

definition getLanguageFromExtension :: "string \<Rightarrow> string" where
  "getLanguageFromExtension ext =
     (case map_of languages ext of Some lang \<Rightarrow> lang | None \<Rightarrow> ''text'')"

text \<open>\<open>filepath.Ext\<close>: the loop runs from the last byte down to a separator or a dot.\<close>

fun extLoop :: "string \<Rightarrow> string \<Rightarrow> string" where
  "extLoop [] acc = []"
| "extLoop (c # cs) acc =
     (if c = CHR ''/'' then [] else if c = CHR ''.'' then c # acc else extLoop cs (c # acc))"

definition Ext :: "string \<Rightarrow> string" where
  "Ext path = extLoop (rev path) []"

text \<open>\<open>filepath.Base\<close> on Unix.\<close>

definition Base :: "string \<Rightarrow> string" where
  "Base path =
     (if path = [] then ''.''
      else (let p = rev (dropWhile (\<lambda>c. c = CHR ''/'') (rev path));
                b = rev (takeWhile (\<lambda>c. c \<noteq> CHR ''/'') (rev p))
            in if b = [] then ''/'' else b))"

text \<open>
  A path below the walked root is the list of its elements. \<open>Rel\<close> is what
  \<open>filepath.Rel(dir, path)\<close> returns for it: the elements joined by the separator, and
  \<open>.\<close> for the root itself.
\<close>

definition Rel :: "string list \<Rightarrow> string" where
  "Rel path = (if path = [] then ''.'' else JoinStrings path ''/'')"

section \<open>The tree renderer: writeTree\<close>

text \<open>
  The output file is the sequence of the writes to it. Each write is kept with the path
  (below the target directory) of the entry it prints, so that the entries a traversal
  shows can be named; the bytes of the file are the texts in order (\<open>written\<close>).
\<close>

type_synonym emit = "string list \<times> string"

definition written :: "emit list \<Rightarrow> string" where
  "written out = concat (map snd out)"

definition connectorLast :: string where
  "connectorLast = [CHR 0xE2, CHR 0x94, CHR 0x94, CHR 0xE2, CHR 0x94, CHR 0x80,
                    CHR 0xE2, CHR 0x94, CHR 0x80, CHR 0x20]"

definition connectorMid :: string where
  "connectorMid = [CHR 0xE2, CHR 0x94, CHR 0x9C, CHR 0xE2, CHR 0x94, CHR 0x80,
                   CHR 0xE2, CHR 0x94, CHR 0x80, CHR 0x20]"

definition prefixLast :: string where
  "prefixLast = [CHR 0x20, CHR 0x20, CHR 0x20, CHR 0x20]"

definition prefixMid :: string where
  "prefixMid = [CHR 0xE2, CHR 0x94, CHR 0x82, CHR 0x20, CHR 0x20, CHR 0x20]"

definition glyphDir :: string where
  "glyphDir = [CHR 0xF0, CHR 0x9F, CHR 0x93, CHR 0x81]"

definition glyphFile :: string where
  "glyphFile = [CHR 0xF0, CHR 0x9F, CHR 0x93, CHR 0x84]"

text \<open>The three tests of the filter loop, each a \<open>continue\<close>.\<close>

definition keepEntry :: "env \<Rightarrow> Config \<Rightarrow> node \<Rightarrow> bool" where
  "keepEntry E config entry =
     (if shouldIgnore E (Name entry) config then False
      else if \<not> showHidden config \<and> HasPrefix (Name entry) ''.'' then False
      else if \<not> includeFiles config \<and> \<not> IsDir entry then False
      else True)"

fun filterEntries :: "env \<Rightarrow> Config \<Rightarrow> node list \<Rightarrow> node list" where
  "filterEntries E config [] = []"
| "filterEntries E config (entry # rest) =
     (if keepEntry E config entry then entry # filterEntries E config rest
      else filterEntries E config rest)"

lemma size_list_filterEntries:
  "size_list size (filterEntries E config xs) \<le> size_list size xs"
  by (induction xs) auto

text \<open>The decorated name of an entry.\<close>

definition displayName :: "Config \<Rightarrow> node \<Rightarrow> string" where
  "displayName config entry =
     (if includeContent config then
        (if IsDir entry then glyphDir @ '' '' @ Name entry @ ''/''
         else glyphFile @ '' '' @ Name entry)
      else if IsDir entry then Name entry @ ''/''
      else Name entry)"

text \<open>
  \<open>writeTree\<close> and its loop over the filtered, sorted entries; \<open>isLast\<close> is
  \<open>i == len(filteredEntries)-1\<close>, that is, no entry follows. The result is what was
  written and the error returned.
\<close>

function writeTree ::
    "env \<Rightarrow> Config \<Rightarrow> string list \<Rightarrow> string \<Rightarrow> nat \<Rightarrow> node \<Rightarrow> emit list \<times> error option"
  and writeEntries ::
    "env \<Rightarrow> Config \<Rightarrow> string list \<Rightarrow> string \<Rightarrow> nat \<Rightarrow> node list \<Rightarrow> emit list \<times> error option"
where
  "writeTree E config dir prefix depth d =
     (if maxDepth config \<ge> 0 \<and> int depth > maxDepth config then ([], None)
      else (case ReadDir d of
              Inl err \<Rightarrow> ([], Some err)
            | Inr entries \<Rightarrow>
                writeEntries E config dir prefix depth
                  (sortEntries (filterEntries E config entries))))"
| "writeEntries E config dir prefix depth [] = ([], None)"
| "writeEntries E config dir prefix depth (entry # rest) =
     (let isLast = (rest = []);
          connector = (if isLast then connectorLast else connectorMid);
          nextPrefix = (if isLast then prefix @ prefixLast else prefix @ prefixMid);
          line = (dir @ [Name entry], prefix @ connector @ displayName config entry @ nl)
      in if IsDir entry then
           (case writeTree E config (dir @ [Name entry]) nextPrefix (depth + 1) entry of
              (out, Some err) \<Rightarrow> (line # out, Some err)
            | (out, None) \<Rightarrow>
                (case writeEntries E config dir prefix depth rest of
                   (out', e) \<Rightarrow> (line # out @ out', e)))
         else (case writeEntries E config dir prefix depth rest of
                 (out', e) \<Rightarrow> (line # out', e)))"
  by pat_completeness auto
termination
proof (relation "measure (\<lambda>x. case x of
          Inl (E, config, dir, prefix, depth, d) \<Rightarrow> 2 * size d
        | Inr (E, config, dir, prefix, depth, es) \<Rightarrow> 2 * size_list size es + 1)", goal_cases)
  case 1
  then show ?case by simp
next
  case (2 E config dir prefix depth d entries)
  then have "size_list size entries < size d"
    by (cases d rule: ReadDir.cases) auto
  with size_list_filterEntries [of E config entries] show ?case by simp
next
  case 3
  then show ?case by simp
next
  case 4
  then show ?case by simp
next
  case 5
  then show ?case by simp
qed

declare writeTree.simps [simp del]

section \<open>filepath.WalkDir\<close>

text \<open>
  What the callback returns: \<open>nil\<close>, \<open>fs.SkipDir\<close> or another error. \<open>WalkDir\<close> calls
  the callback on each entry in the order of the listing, before the entries below it; a
  directory whose listing failed gets a second call with the error. \<open>SkipDir\<close> from a
  directory skips its entries, from a file the rest of its directory.
\<close>

datatype walk_result = Continue | SkipDir | Abort error

type_synonym 's WalkDirFunc = "string list \<Rightarrow> node \<Rightarrow> error option \<Rightarrow> 's \<Rightarrow> 's \<times> walk_result"

fun walkDir :: "'s WalkDirFunc \<Rightarrow> string list \<Rightarrow> node \<Rightarrow> 's \<Rightarrow> 's \<times> walk_result"
  and walkDirs :: "'s WalkDirFunc \<Rightarrow> string list \<Rightarrow> node list \<Rightarrow> 's \<Rightarrow> 's \<times> walk_result"
where
  "walkDir fn path (File f) s = fn path (File f) None s"
| "walkDir fn path (Dir n e ks) s =
     (case fn path (Dir n e ks) None s of
        (s1, SkipDir) \<Rightarrow> (s1, Continue)
      | (s1, Abort err) \<Rightarrow> (s1, Abort err)
      | (s1, Continue) \<Rightarrow>
          (case e of
             None \<Rightarrow> walkDirs fn path ks s1
           | Some err \<Rightarrow>
               (case fn path (Dir n e ks) (Some err) s1 of
                  (s2, SkipDir) \<Rightarrow> (s2, Continue)
                | (s2, Abort err') \<Rightarrow> (s2, Abort err')
                | (s2, Continue) \<Rightarrow> walkDirs fn path ks s2)))"
| "walkDirs fn path [] s = (s, Continue)"
| "walkDirs fn path (d1 # ds) s =
     (case walkDir fn (path @ [Name d1]) d1 s of
        (s1, SkipDir) \<Rightarrow> (s1, Continue)
      | (s1, Abort err) \<Rightarrow> (s1, Abort err)
      | (s1, Continue) \<Rightarrow> walkDirs fn path ds s1)"

definition WalkDir :: "node \<Rightarrow> 's WalkDirFunc \<Rightarrow> 's \<Rightarrow> 's \<times> error option" where
  "WalkDir root fn s =
     (case walkDir fn [] root s of
        (s1, Abort err) \<Rightarrow> (s1, Some err)
      | (s1, r) \<Rightarrow> (s1, None))"


section \<open>The project statistics: writeProjectInfo\<close>

text \<open>The callback of the counting walk; its state is \<open>fileCount\<close> and \<open>dirCount\<close>.\<close>

definition countFn :: "(int \<times> int) WalkDirFunc" where
  "countFn path d err c =
     (case c of (fileCount, dirCount) \<Rightarrow>
        (case err of
           Some e \<Rightarrow> (c, Continue)
         | None \<Rightarrow>
             if IsDir d then ((fileCount, dirCount + 1), Continue)
             else ((fileCount + 1, dirCount), Continue)))"

definition glyphChart :: string where
  "glyphChart = [CHR 0xF0, CHR 0x9F, CHR 0x93, CHR 0x8A]"

definition writeProjectInfo :: "string \<Rightarrow> node \<Rightarrow> string" where
  "writeProjectInfo dir root =
     (case fst (WalkDir root countFn (0, 0)) of (fileCount, dirCount) \<Rightarrow>
        ''## '' @ glyphChart @ '' Project Overview'' @ nl @ nl @
        ''- **Total Files:** '' @ FormatInt fileCount @ nl @
        ''- **Total Directories:** '' @ FormatInt (dirCount - 1) @ nl @
        ''- **Project Root:** `'' @ dir @ ''`'' @ nl @ nl)"

section \<open>The content renderer: writeFileContents\<close>

definition ReadFile :: "leaf \<Rightarrow> error + string" where
  "ReadFile f = (case f_readfile_err f of Some e \<Rightarrow> Inl e | None \<Rightarrow> Inr (f_data f))"

definition fence :: string where
  "fence = [CHR 0x60, CHR 0x60, CHR 0x60]"

definition heading :: "string \<Rightarrow> string" where
  "heading relPath = ''### '' @ glyphFile @ '' '' @ relPath @ nl @ nl"

definition noteTooLarge :: "env \<Rightarrow> string \<Rightarrow> int \<Rightarrow> string" where
  "noteTooLarge E relPath sz =
     heading relPath @ ''*File too large to display ('' @ formatFileSize E sz @ '')*'' @ nl @ nl"

definition noteBinary :: "env \<Rightarrow> string \<Rightarrow> int \<Rightarrow> string" where
  "noteBinary E relPath sz =
     heading relPath @ ''*Binary file ('' @ formatFileSize E sz @ '')*'' @ nl @ nl"

definition noteReadError :: "string \<Rightarrow> error \<Rightarrow> string" where
  "noteReadError relPath err =
     heading relPath @ ''*Error reading file: '' @ err @ ''*'' @ nl @ nl"

definition fileSection :: "env \<Rightarrow> string \<Rightarrow> int \<Rightarrow> string \<Rightarrow> string \<Rightarrow> string" where
  "fileSection E relPath sz lang content =
     heading relPath @
     ''*Size: '' @ formatFileSize E sz @ '' | Language: '' @ lang @ ''*'' @ nl @ nl @
     fence @ lang @ nl @ content @ nl @ fence @ nl @ nl"

text \<open>
  The callback of the content walk. \<open>path\<close> is the path below \<open>dir\<close>; the extension of
  the full path is the extension of its last element, the name of the entry.
\<close>

definition contentFn :: "env \<Rightarrow> Config \<Rightarrow> (emit list) WalkDirFunc" where
  "contentFn E config path d err out =
     (case err of
        Some e \<Rightarrow> (out, Abort e)
      | None \<Rightarrow>
          (let relPath = Rel path;
               currentDepth = int (length (Split relPath (CHR ''/''))) - 1
           in if maxDepth config \<ge> 0 \<and> currentDepth > maxDepth config then
                (if IsDir d then (out, SkipDir) else (out, Continue))
              else
                (case d of
                   Dir n e ks \<Rightarrow> (out, Continue)
                 | File f \<Rightarrow>
                     if shouldIgnore E (Name d) config then (out, Continue)
                     else if \<not> showHidden config \<and> HasPrefix (Name d) ''.'' then (out, Continue)
                     else
                       (let relPath = (if relPath = ''.'' then Name d else relPath) in
                        case f_info f of
                          Inl e \<Rightarrow> (out, Continue)
                        | Inr sz \<Rightarrow>
                            if sint sz > 1024 * 1024 then
                              (out @ [(path, noteTooLarge E relPath (sint sz))], Continue)
                            else if \<not> isTextFile f then
                              (out @ [(path, noteBinary E relPath (sint sz))], Continue)
                            else
                              (case ReadFile f of
                                 Inl e \<Rightarrow> (out @ [(path, noteReadError relPath e)], Continue)
                               | Inr content \<Rightarrow>
                                   (let ext = ToLower E (Ext (Name d));
                                        lang = getLanguageFromExtension ext
                                    in (out @ [(path, fileSection E relPath (sint sz) lang content)],
                                        Continue)))))))"

definition writeFileContents :: "env \<Rightarrow> Config \<Rightarrow> node \<Rightarrow> nat \<Rightarrow> emit list \<times> error option" where
  "writeFileContents E config root depth =
     (if maxDepth config \<ge> 0 \<and> int depth > maxDepth config then ([], None)
      else WalkDir root (contentFn E config) [])"

section \<open>The report writer: generateReadme\<close>

definition glyphTools :: string where
  "glyphTools = [CHR 0xF0, CHR 0x9F, CHR 0x9B, CHR 0xA0, CHR 0xEF, CHR 0xB8, CHR 0x8F]"

definition writeFooter :: "Config \<Rightarrow> string" where
  "writeFooter config =
     ''---'' @ nl @ nl @
     ''## '' @ glyphTools @ '' Generated with foldermd'' @ nl @ nl @
     ''**Configuration used:**'' @ nl @
     ''- Include files: `'' @ FormatBool (includeFiles config) @ ''`'' @ nl @
     ''- Include content: `'' @ FormatBool (includeContent config) @ ''`'' @ nl @
     ''- Max depth: `'' @ FormatInt (maxDepth config) @ ''`'' @ nl @
     ''- Show hidden: `'' @ FormatBool (showHidden config) @ ''`'' @ nl @
     ''- Ignore patterns: `'' @ JoinStrings (ignorePatterns config) '', '' @ ''`'' @ nl @
     nl @ ''*This README was automatically generated. Consider customizing it for your project!*'' @ nl"

text \<open>
  \<open>readIgnoreFile\<close>. The scanner yields the lines of the file without their line ends
  (a carriage return before the line feed is dropped too) and fails on a read error or
  on a line of 64 KiB or more. The caller uses the patterns only when no error is
  returned, so the result is the error or the patterns.
\<close>

definition dropCR :: "string \<Rightarrow> string" where
  "dropCR line = (if line \<noteq> [] \<and> last line = CHR 0x0D then butlast line else line)"

definition scanLines :: "string \<Rightarrow> string list" where
  "scanLines data =
     (let ls = Split data (CHR 0x0A) in if last ls = [] then butlast ls else ls)"

definition readIgnoreFile :: "leaf \<Rightarrow> error + string list" where
  "readIgnoreFile f =
     (case f_open_err f of
        Some e \<Rightarrow> Inl e
      | None \<Rightarrow>
          (case f_read_err f of
             Some e \<Rightarrow> Inl e
           | None \<Rightarrow>
               if list_ex (\<lambda>l. length l \<ge> 65536) (scanLines (f_data f))
               then Inl ''bufio.Scanner: token too long''
               else Inr (filter (\<lambda>line. line \<noteq> [] \<and> \<not> HasPrefix line ''#'')
                           (map (\<lambda>l. TrimSpace (dropCR l)) (scanLines (f_data f))))))"

text \<open>
  The merge of \<open>.foldermd.ignore\<close>: \<open>os.Stat\<close> of the file in the target directory
  succeeds when the directory lists an entry of that name; a directory of that name
  opens but cannot be read, so nothing is merged.
\<close>

definition ignoreFileName :: string where
  "ignoreFileName = ''.foldermd.ignore''"

definition mergeIgnoreFile :: "Config \<Rightarrow> node \<Rightarrow> Config" where
  "mergeIgnoreFile config root =
     (case root of
        File f \<Rightarrow> config
      | Dir n e ks \<Rightarrow>
          (case find (\<lambda>k. Name k = ignoreFileName) ks of
             None \<Rightarrow> config
           | Some (Dir n' e' ks') \<Rightarrow> config
           | Some (File f) \<Rightarrow>
               (case readIgnoreFile f of
                  Inl err \<Rightarrow> config
                | Inr additionalPatterns \<Rightarrow>
                    config\<lparr>ignorePatterns := ignorePatterns config @ additionalPatterns\<rparr>)))"

definition docHead :: "env \<Rightarrow> Config \<Rightarrow> node \<Rightarrow> string" where
  "docHead E config root =
     (let projectName =
            (if Base (targetDir config) = ''.'' then Base (Getwd E) else Base (targetDir config))
      in ''# '' @ projectName @ nl @ nl @
         ''> Generated with [foldermd](https://github.com/yourusername/foldermd) on '' @
           Now E @ nl @ nl @
         writeProjectInfo (targetDir config) root @
         ''## '' @ glyphDir @ '' Project Structure'' @ nl @ nl @
         (if includeFiles config then
            fence @ nl @
            ''Legend: '' @ glyphDir @ '' Directory | '' @ glyphFile @ '' File'' @ nl @
            fence @ nl @ nl
          else []) @
         fence @ nl)"

text \<open>
  \<open>os.Create\<close> of the output file comes first in \<open>generateReadme\<close>, before the ignore
  file is looked for and before the three walks, so the walks run on the tree with the
  output file in it when the file lies below the target directory. Where the path
  \<open>outputFile\<close> leads is decided by the file system; \<open>place\<close> is the outcome: \<open>None\<close>
  when the file lies outside the target directory, otherwise its path below it.

  \<open>createAt\<close> is the effect of \<open>O_CREATE|O_TRUNC\<close> on the tree: an existing file is
  emptied, a missing one is added to the listing of its directory (which \<open>os.ReadDir\<close>
  sorts by name); the errors are those of \<open>open(2)\<close>. Other failures (permissions, a
  path outside the tree) are \<open>CreateErr\<close> of the environment. A file the run has
  created can be opened and read by it.
\<close>

definition truncated :: "leaf \<Rightarrow> leaf" where
  "truncated f =
     f\<lparr>f_data := [], f_info := (case f_info f of Inl e \<Rightarrow> Inl e | Inr sz \<Rightarrow> Inr 0)\<rparr>"

definition newFile :: "string \<Rightarrow> leaf" where
  "newFile name =
     \<lparr>f_name = name, f_info = Inr 0, f_open_err = None, f_read_err = None, f_data = [],
      f_readfile_err = None\<rparr>"

definition putEntry :: "string \<Rightarrow> node list \<Rightarrow> error + node list" where
  "putEntry name ks =
     (case find (\<lambda>k. Name k = name) ks of
        Some (Dir n e ks') \<Rightarrow> Inl ''is a directory''
      | Some (File f) \<Rightarrow>
          Inr (map (\<lambda>k. if Name k = name then File (truncated f) else k) ks)
      | None \<Rightarrow>
          Inr (takeWhile (\<lambda>k. Name k < name) ks @ [File (newFile name)] @
               dropWhile (\<lambda>k. Name k < name) ks))"

fun createAt :: "string list \<Rightarrow> node \<Rightarrow> error + node" where
  "createAt [] (File f) = Inr (File (truncated f))"
| "createAt [] (Dir n e ks) = Inl ''is a directory''"
| "createAt (x # xs) (File f) = Inl ''not a directory''"
| "createAt (x # xs) (Dir n e ks) =
     (if xs = [] then
        (case putEntry x ks of Inl err \<Rightarrow> Inl err | Inr ks' \<Rightarrow> Inr (Dir n e ks'))
      else
        (case find (\<lambda>k. Name k = x) ks of
           None \<Rightarrow> Inl ''no such file or directory''
         | Some k \<Rightarrow>
             (case createAt xs k of
                Inl err \<Rightarrow> Inl err
              | Inr k' \<Rightarrow> Inr (Dir n e (map (\<lambda>j. if Name j = x then k' else j) ks)))))"

definition Create :: "env \<Rightarrow> string \<Rightarrow> string list option \<Rightarrow> node \<Rightarrow> error + node" where
  "Create E name place root =
     (case CreateErr E of
        Some err \<Rightarrow> Inl err
      | None \<Rightarrow>
          (case place of
             None \<Rightarrow> Inr root
           | Some p \<Rightarrow>
               (case createAt p root of
                  Inl err \<Rightarrow> Inl (''open '' @ name @ '': '' @ err)
                | Inr root' \<Rightarrow> Inr root')))"

text \<open>
  The writes to the output file are not buffered, so while the content walk runs the
  file holds what has been written so far: \<open>pre\<close>, the bytes written before the walk,
  and the sections of the walk. \<open>d.Info()\<close>, \<open>isTextFile\<close> and \<open>os.ReadFile\<close> look at
  the file when they are called; \<open>current\<close> is the entry as they find it, and
  \<open>contentFnOn\<close> is the callback of \<open>writeFileContents\<close> on the entries as they are at
  the time of the call. For every entry but the output file this is \<open>contentFn\<close>.
\<close>

definition current :: "string list option \<Rightarrow> string \<Rightarrow> string list \<Rightarrow> node \<Rightarrow> node" where
  "current place doc path d =
     (case d of
        Dir n e ks \<Rightarrow> d
      | File f \<Rightarrow>
          if place = Some path then
            File (f\<lparr>f_data := doc,
                    f_info := (case f_info f of
                                 Inl e \<Rightarrow> Inl e
                               | Inr sz \<Rightarrow> Inr (of_nat (length doc)))\<rparr>)
          else d)"

definition contentFnOn ::
    "env \<Rightarrow> Config \<Rightarrow> string list option \<Rightarrow> string \<Rightarrow> (emit list) WalkDirFunc" where
  "contentFnOn E config place pre path d err out =
     contentFn E config path (current place (pre @ written out) path d) err out"

definition writeFileContentsOn ::
    "env \<Rightarrow> Config \<Rightarrow> string list option \<Rightarrow> string \<Rightarrow> node \<Rightarrow> nat \<Rightarrow> emit list \<times> error option" where
  "writeFileContentsOn E config place pre root depth =
     (if maxDepth config \<ge> 0 \<and> int depth > maxDepth config then ([], None)
      else WalkDir root (contentFnOn E config place pre) [])"

text \<open>
  \<open>generateReadme\<close>: the bytes written to the output file and the error returned, for
  the tree \<open>root0\<close> below the target directory as it is before the run. The messages on
  the terminal are not part of the model.
\<close>

definition generateReadme ::
    "env \<Rightarrow> Config \<Rightarrow> string list option \<Rightarrow> node \<Rightarrow> string \<times> error option" where
  "generateReadme E config0 place root0 =
     (case Create E (outputFile config0) place root0 of
        Inl err \<Rightarrow>
          ([], Some (''failed to create output file '' @ [CHR 0x27] @ outputFile config0 @
                     [CHR 0x27] @ '': '' @ err))
      | Inr root \<Rightarrow>
          (let config = mergeIgnoreFile config0 root;
               head = docHead E config root
           in case writeTree E config [] [] 0 root of
                (tree, Some err) \<Rightarrow>
                  (head @ written tree, Some (''failed to generate tree: '' @ err))
              | (tree, None) \<Rightarrow>
                  (let doc = head @ written tree @ fence @ nl @ nl in
                   if includeContent config then
                     (let pre = doc @ ''## '' @ glyphFile @ '' File Contents'' @ nl @ nl in
                      case writeFileContentsOn E config place pre root 0 of
                        (secs, Some err) \<Rightarrow>
                          (pre @ written secs,
                           Some (''failed to write file contents: '' @ err))
                      | (secs, None) \<Rightarrow>
                          (pre @ written secs @ writeFooter config, None))
                   else (doc @ writeFooter config, None))))"

section \<open>The init subcommand: createIgnoreFile\<close>

text \<open>
  The working directory as \<open>init\<close> sees it: the files by name, the log of the calls of
  \<open>os.WriteFile\<close>, and whether \<open>os.WriteFile\<close> fails. \<open>os.Stat\<close> returns no error for a
  file that exists.
\<close>

record world =
  files :: "string \<Rightarrow> string option"
  writes :: "(string \<times> string) list"
  WriteErr :: "error option"

definition Stat :: "world \<Rightarrow> string \<Rightarrow> error option" where
  "Stat w name =
     (case files w name of
        Some c \<Rightarrow> None
      | None \<Rightarrow> Some (''stat '' @ name @ '': no such file or directory''))"

definition WriteFile :: "world \<Rightarrow> string \<Rightarrow> string \<Rightarrow> error option \<times> world" where
  "WriteFile w name data =
     (case WriteErr w of
        Some e \<Rightarrow> (Some e, w\<lparr>writes := writes w @ [(name, data)]\<rparr>)
      | None \<Rightarrow> (None, w\<lparr>files := (files w)(name \<mapsto> data), writes := writes w @ [(name, data)]\<rparr>))"

definition defaultIgnoreLines :: "string list" where
  "defaultIgnoreLines =
    [''# foldermd ignore patterns'', ''# Lines starting with # are comments'',
     ''# Use glob patterns to match files and directories'', [], ''# Version control'',
     ''.git'', ''.svn'', ''.hg'', [], ''# Dependencies'', ''node_modules'', ''vendor'',
     ''__pycache__'', ''.venv'', ''venv'', [], ''# Build outputs'', ''build'', ''dist'',
     ''out'', ''target'', ''bin'', ''obj'', [], ''# IDE and editor files'', ''.vscode'',
     ''.idea'', ''*.swp'', ''*.swo'', ''*~'', [], ''# OS generated files'', ''.DS_Store'',
     ''Thumbs.db'', ''Desktop.ini'', [], ''# Logs'', ''*.log'', ''logs'', [],
     ''# Temporary files'', ''tmp'', ''temp'', ''*.tmp'', ''*.temp'', [], ''# Archives'',
     ''*.zip'', ''*.tar.gz'', ''*.rar'', ''*.7z'']"

definition createIgnoreFile :: "world \<Rightarrow> error option \<times> world" where
  "createIgnoreFile w =
     (let filename = ''.foldermd.ignore'' in
      if Stat w filename = None then (Some (''file '' @ filename @ '' already exists''), w)
      else (case WriteFile w filename (JoinStrings defaultIgnoreLines nl) of
              (Some err, w') \<Rightarrow> (Some (''failed to create '' @ filename @ '': '' @ err), w')
            | (None, w') \<Rightarrow> (None, w')))"

text \<open>The exit status of \<open>foldermd init\<close>: \<open>main\<close> exits with 1 when the command returns an
  error.\<close>

definition initExit :: "world \<Rightarrow> int \<times> world" where
  "initExit w =
     (case createIgnoreFile w of
        (Some err, w') \<Rightarrow> (1, w')
      | (None, w') \<Rightarrow> (0, w'))"


section \<open>Sample values for closed examples\<close>

text \<open>
  An environment for the examples. \<open>asciiLower\<close> is \<open>strings.ToLower\<close> on ASCII strings;
  \<open>fixed1\<close> is the quotient to one decimal place, rounded half to even, which is the
  \<open>%.1f\<close> rendering of \<open>float64(size)/float64(div)\<close> for sizes below \<open>2^53\<close>.
\<close>

definition asciiLower :: "string \<Rightarrow> string" where
  "asciiLower s =
     map (\<lambda>c. case map_of (zip ''ABCDEFGHIJKLMNOPQRSTUVWXYZ'' ''abcdefghijklmnopqrstuvwxyz'') c of
                 Some l \<Rightarrow> l | None \<Rightarrow> c) s"

definition fixed1 :: "int \<Rightarrow> int \<Rightarrow> string" where
  "fixed1 sz d =
     (let t = (10 * sz) div d; r = (10 * sz) mod d;
          t' = (if 2 * r > d \<or> (2 * r = d \<and> odd t) then t + 1 else t)
      in FormatInt (t' div 10) @ ''.'' @ FormatInt (t' mod 10))"

definition sampleEnv :: env where
  "sampleEnv = \<lparr>Match = globMatch, ToLower = asciiLower, FormatFloat1 = fixed1,
                 Now = ''2024-05-01 12:00:00'', Getwd = ''/home/dev/proj'', CreateErr = None\<rparr>"

text \<open>The configuration of a run without flags in the current directory.\<close>

definition defaultConfig :: Config where
  "defaultConfig = \<lparr>includeFiles = False, includeContent = False, outputFile = ''README.md'',
                     ignorePatterns = [''.git'', ''.DS_Store'', ''node_modules'', ''*.log''],
                     maxDepth = - 1, showHidden = False, targetDir = ''.''\<rparr>"

text \<open>A readable regular file with the given bytes.\<close>

definition regular :: "string \<Rightarrow> string \<Rightarrow> node" where
  "regular name data =
     File \<lparr>f_name = name, f_info = Inr (of_nat (length data)), f_open_err = None,
           f_read_err = None, f_data = data, f_readfile_err = None\<rparr>"

definition sampleTree :: node where
  "sampleTree =
     Dir ''proj'' None
       [Dir ''.git'' None [regular ''config'' ''[core]''],
        regular ''a.go'' (''package a'' @ nl),
        Dir ''build'' None
          [regular ''out.log'' ''done'',
           Dir ''sub'' None [regular ''deep.txt'' ''deep'']]]"


section \<open>Notions used in the statements\<close>

text \<open>
  A file passes the tests of the content walk that come before its size is read: it is
  within the depth limit, its name is not ignored and it is not a hidden file that is
  left out. \<open>shownPath\<close> is the path written in its heading. \<open>countFiles\<close> and
  \<open>countDirs\<close> count the files and the directories of a tree, the root included.
\<close>

definition filteredIn :: "env \<Rightarrow> Config \<Rightarrow> string list \<Rightarrow> leaf \<Rightarrow> bool" where
  "filteredIn E config path f =
     (\<not> (maxDepth config \<ge> 0 \<and> int (length (Split (Rel path) (CHR ''/''))) - 1 > maxDepth config) \<and>
      \<not> shouldIgnore E (f_name f) config \<and>
      \<not> (\<not> showHidden config \<and> HasPrefix (f_name f) ''.''))"

definition shownPath :: "string list \<Rightarrow> leaf \<Rightarrow> string" where
  "shownPath path f = (if Rel path = ''.'' then f_name f else Rel path)"

fun countFiles :: "node \<Rightarrow> nat" where
  "countFiles (File f) = 1"
| "countFiles (Dir n e ks) = sum_list (map countFiles ks)"

fun countDirs :: "node \<Rightarrow> nat" where
  "countDirs (File f) = 0"
| "countDirs (Dir n e ks) = 1 + sum_list (map countDirs ks)"


text \<open>
  The entries of a node; trees in which the entries of each directory have distinct
  names, in which every directory can be listed, and in which no name contains the
  separator. \<open>shownAt\<close> holds for the paths all of whose elements survive the filter of
  the tree renderer, \<open>nodeAt\<close> finds the node at a path, and \<open>depthOK\<close> is the depth
  limit for a path below a directory at the given depth. \<open>tooDeep\<close> is the depth test
  of the content walk as the code computes it, \<open>emitted\<close> holds for the files the content
  walk writes a section or a note for, and \<open>fileSet\<close> is the set of their paths.
\<close>

fun kids :: "node \<Rightarrow> node list" where
  "kids (File f) = []"
| "kids (Dir n e ks) = ks"

fun uniqueNames :: "node \<Rightarrow> bool" where
  "uniqueNames (File f) = True"
| "uniqueNames (Dir n e ks) = (distinct (map Name ks) \<and> (\<forall>k \<in> set ks. uniqueNames k))"

fun listable :: "node \<Rightarrow> bool" where
  "listable (File f) = True"
| "listable (Dir n e ks) = (e = None \<and> (\<forall>k \<in> set ks. listable k))"

fun shownAt :: "env \<Rightarrow> Config \<Rightarrow> node list \<Rightarrow> string list \<Rightarrow> bool" where
  "shownAt E c ks [] = False"
| "shownAt E c ks (x # xs) =
     (case find (\<lambda>k. Name k = x) ks of
        None \<Rightarrow> False
      | Some k \<Rightarrow> keepEntry E c k \<and> (xs = [] \<or> shownAt E c (kids k) xs))"

definition depthOK :: "Config \<Rightarrow> nat \<Rightarrow> string list \<Rightarrow> bool" where
  "depthOK c depth p = (maxDepth c < 0 \<or> int depth + int (length p) - 1 \<le> maxDepth c)"

fun nodeAt :: "node \<Rightarrow> string list \<Rightarrow> node option" where
  "nodeAt d [] = Some d"
| "nodeAt d (x # xs) =
     (case find (\<lambda>k. Name k = x) (kids d) of None \<Rightarrow> None | Some k \<Rightarrow> nodeAt k xs)"

fun validNames :: "node \<Rightarrow> bool" where
  "validNames (File f) = True"
| "validNames (Dir n e ks) = (\<forall>k \<in> set ks. CHR ''/'' \<notin> set (Name k) \<and> validNames k)"

definition tooDeep :: "Config \<Rightarrow> string list \<Rightarrow> bool" where
  "tooDeep c path =
     (maxDepth c \<ge> 0 \<and> int (length (Split (Rel path) (CHR ''/''))) - 1 > maxDepth c)"

definition emitted :: "env \<Rightarrow> Config \<Rightarrow> string list \<Rightarrow> leaf \<Rightarrow> bool" where
  "emitted E c path f = (filteredIn E c path f \<and> (\<exists>sz. f_info f = Inr sz))"

definition fileSet :: "env \<Rightarrow> Config \<Rightarrow> string list \<Rightarrow> node \<Rightarrow> string list set" where
  "fileSet E c path d = {path @ q |q f. nodeAt d q = Some (File f) \<and> emitted E c (path @ q) f}"

text \<open>
  Fenced code blocks, after CommonMark. A line ends at a line feed, at a carriage
  return, or at a carriage return followed by a line feed; \<open>docLines\<close> are the lines of
  a text. A line opens a fence when, after at most three spaces, it has a run of three
  or more backticks or tildes (and, for backticks, no backtick after the run); it
  closes an open fence when, after at most three spaces, it has a run of the same
  character, at least as long as the opening run, followed by spaces and tabs only.
  \<open>scanFences\<close> runs over the lines of a document with the open fence, if any, as its
  state, and \<open>fencesClosed\<close> says that no fence is open at the end. \<open>after\<close> is the
  state after a text, \<open>passes\<close> relates the states before and after a text made of whole
  lines, \<open>plain\<close> holds for a line that is no fence line, and \<open>unlines\<close> ends each line
  of a list with a line feed.
\<close>

fun docLines :: "string \<Rightarrow> string list" where
  "docLines [] = [[]]"
| "docLines (c # cs) =
     (if c = CHR 0x0A then [] # docLines cs
      else if c = CHR 0x0D then
        (case cs of
           [] \<Rightarrow> [[], []]
         | c' # cs' \<Rightarrow> if c' = CHR 0x0A then [] # docLines cs' else [] # docLines cs)
      else (case docLines cs of
              [] \<Rightarrow> [[c]]
            | l # ls \<Rightarrow> (c # l) # ls))"

definition afterIndent :: "string \<Rightarrow> string" where
  "afterIndent l = dropWhile (\<lambda>c. c = CHR '' '') l"

definition indentOf :: "string \<Rightarrow> nat" where
  "indentOf l = length (takeWhile (\<lambda>c. c = CHR '' '') l)"

definition fenceChar :: "string \<Rightarrow> char option" where
  "fenceChar l =
     (case afterIndent l of
        [] \<Rightarrow> None
      | ch # rest \<Rightarrow> if ch = CHR 0x60 \<or> ch = CHR ''~'' then Some ch else None)"

definition runLength :: "char \<Rightarrow> string \<Rightarrow> nat" where
  "runLength ch l = length (takeWhile (\<lambda>c. c = ch) (afterIndent l))"

definition afterRun :: "char \<Rightarrow> string \<Rightarrow> string" where
  "afterRun ch l = dropWhile (\<lambda>c. c = ch) (afterIndent l)"

definition opensFence :: "string \<Rightarrow> (char \<times> nat) option" where
  "opensFence l =
     (case fenceChar l of
        None \<Rightarrow> None
      | Some ch \<Rightarrow>
          if indentOf l \<le> 3 \<and> runLength ch l \<ge> 3 \<and>
             \<not> (ch = CHR 0x60 \<and> CHR 0x60 \<in> set (afterRun ch l))
          then Some (ch, runLength ch l) else None)"

definition closesFence :: "char \<times> nat \<Rightarrow> string \<Rightarrow> bool" where
  "closesFence open l =
     (indentOf l \<le> 3 \<and> fenceChar l = Some (fst open) \<and> runLength (fst open) l \<ge> snd open \<and>
      list_all (\<lambda>c. c = CHR '' '' \<or> c = CHR 0x09) (afterRun (fst open) l))"

definition fenceStep :: "(char \<times> nat) option \<Rightarrow> string \<Rightarrow> (char \<times> nat) option" where
  "fenceStep st l =
     (case st of
        None \<Rightarrow> opensFence l
      | Some open \<Rightarrow> if closesFence open l then None else Some open)"

fun scanFences :: "(char \<times> nat) option \<Rightarrow> string list \<Rightarrow> (char \<times> nat) option" where
  "scanFences st [] = st"
| "scanFences st (l # ls) = scanFences (fenceStep st l) ls"

definition fencesClosed :: "string \<Rightarrow> bool" where
  "fencesClosed doc = (scanFences None (docLines doc) = None)"

definition after :: "(char \<times> nat) option \<Rightarrow> string \<Rightarrow> (char \<times> nat) option" where
  "after st s = scanFences st (docLines s)"

definition passes :: "(char \<times> nat) option \<Rightarrow> string \<Rightarrow> (char \<times> nat) option \<Rightarrow> bool" where
  "passes st X st' = (\<forall>t. after st (X @ t) = after st' t)"



text \<open>
  The hypotheses of the statement about fences. \<open>nlfree\<close> holds for a string that holds
  no line ending, neither a line feed nor a carriage return. \<open>cleanEnv\<close>: the strings of
  the environment and the configuration that are printed hold none (the time stamp, the
  target directory, the project name when it is taken from the working directory, the
  ignore patterns, the rendering of sizes). \<open>shownClean\<close>: the names of the entries
  that the tree renderer shows hold none; these are the entries that pass its filter,
  in the directories it lists within the depth limit.

  \<open>safeLeaf\<close> speaks of a file in content mode. When the content walk writes a section
  or a note for the file, the path in its heading holds no line ending. When the walk
  reads the bytes of the file (the file passes the tests of the walk, its size is at
  most 1 MiB and it is text for \<open>isTextFile\<close>), the message of a read error holds no
  line ending, and when the file is read, so that its bytes are embedded, none of its
  lines closes a fence of three backticks. \<open>safeFiles\<close> is \<open>safeLeaf\<close> for every file
  of a tree at its path.

  \<open>outputNotEmbedded\<close>: the output file is not among the files the content walk reads.
  The file lies outside the target directory, or contents are not included, or the
  walk leaves it out by its depth, by an ignore pattern or as a hidden file.
\<close>

definition nlfree :: "string \<Rightarrow> bool" where
  "nlfree s = (CHR 0x0A \<notin> set s \<and> CHR 0x0D \<notin> set s)"

definition plain :: "string \<Rightarrow> bool" where
  "plain l = (nlfree l \<and> fenceChar l = None)"

definition cleanEnv :: "env \<Rightarrow> Config \<Rightarrow> bool" where
  "cleanEnv E c =
     (nlfree (Now E) \<and> nlfree (targetDir c) \<and>
      (Base (targetDir c) = ''.'' \<longrightarrow> nlfree (Base (Getwd E))) \<and>
      list_all nlfree (ignorePatterns c) \<and> (\<forall>a b. nlfree (FormatFloat1 E a b)))"

fun shownClean :: "env \<Rightarrow> Config \<Rightarrow> nat \<Rightarrow> node \<Rightarrow> bool" where
  "shownClean E c depth (File f) = True"
| "shownClean E c depth (Dir n e ks) =
     ((maxDepth c \<ge> 0 \<and> int depth > maxDepth c) \<or>
      (\<forall>k \<in> set ks. keepEntry E c k \<longrightarrow> nlfree (Name k) \<and> shownClean E c (depth + 1) k))"

definition safeLeaf :: "env \<Rightarrow> Config \<Rightarrow> string list \<Rightarrow> leaf \<Rightarrow> bool" where
  "safeLeaf E c path f =
     (includeContent c \<longrightarrow>
        (filteredIn E c path f \<and> (case f_info f of Inl e \<Rightarrow> False | Inr sz \<Rightarrow> True) \<longrightarrow>
           nlfree (shownPath path f)) \<and>
        (filteredIn E c path f \<and>
         (case f_info f of Inl e \<Rightarrow> False | Inr sz \<Rightarrow> \<not> sint sz > 1024 * 1024) \<and>
         isTextFile f \<longrightarrow>
           (case f_readfile_err f of
              Some e \<Rightarrow> nlfree e
            | None \<Rightarrow> list_all (\<lambda>l. \<not> closesFence (CHR 0x60, 3) l) (docLines (f_data f)))))"

fun safeFiles :: "env \<Rightarrow> Config \<Rightarrow> string list \<Rightarrow> node \<Rightarrow> bool" where
  "safeFiles E c path (File f) = safeLeaf E c path f"
| "safeFiles E c path (Dir n e ks) = (\<forall>k \<in> set ks. safeFiles E c (path @ [Name k]) k)"

definition outputSkipped :: "env \<Rightarrow> Config \<Rightarrow> string list \<Rightarrow> bool" where
  "outputSkipped E c p =
     (p \<noteq> [] \<and>
      (tooDeep c p \<or> shouldIgnore E (last p) c \<or> (\<not> showHidden c \<and> HasPrefix (last p) ''.'')))"

definition outputNotEmbedded :: "env \<Rightarrow> Config \<Rightarrow> string list option \<Rightarrow> bool" where
  "outputNotEmbedded E c place =
     (case place of
        None \<Rightarrow> True
      | Some p \<Rightarrow> \<not> includeContent c \<or> outputSkipped E c p)"




section \<open>More sample values\<close>

definition nullLeaf :: leaf where
  "nullLeaf = \<lparr>f_name = ''a.go'', f_info = Inr 5, f_open_err = None, f_read_err = None,
                f_data = ''ab'' @ [CHR 0x00] @ ''cd'', f_readfile_err = None\<rparr>"

definition emptyLeaf :: leaf where
  "emptyLeaf = \<lparr>f_name = ''empty.txt'', f_info = Inr 0, f_open_err = None, f_read_err = None,
                 f_data = [], f_readfile_err = None\<rparr>"

definition contentConfig :: Config where
  "contentConfig = defaultConfig\<lparr>includeFiles := True, includeContent := True\<rparr>"

definition sampleListing :: "node list" where
  "sampleListing = [regular ''b.txt'' [], Dir ''zeta'' None [], regular ''B.txt'' [], Dir ''alpha'' None []]"

definition sampleWorld :: world where
  "sampleWorld = \<lparr>files = [''.foldermd.ignore'' \<mapsto> ''*.bak''], writes = [], WriteErr = None\<rparr>"

definition shallowConfig :: Config where
  "shallowConfig = defaultConfig\<lparr>includeFiles := True, includeContent := True, maxDepth := 0\<rparr>"




text \<open>A directory that holds one file whose name sorts before \<open>README.md\<close>.\<close>

definition makeTree :: node where
  "makeTree = Dir ''proj'' None [regular ''Makefile'' (''all:'' @ nl)]"






section \<open>The matcher\<close>

lemma shouldIgnoreLoop_iff:
  "shouldIgnoreLoop E name ps =
     (\<exists>p \<in> set ps. TrimSpace p = name \<or>
        (CHR ''*'' \<in> set (TrimSpace p) \<and> fst (Match E (TrimSpace p) name)))"
  by (induction ps) (auto simp: Let_def ContainsByte_def)

text \<open>
  Claim C2, as amended. \<open>shouldIgnore\<close> returns true exactly when some pattern, after
  \<open>strings.TrimSpace\<close>, equals the name or contains \<open>*\<close> and is reported as matching by
  \<open>filepath.Match\<close>. The result depends only on the set of patterns, and the empty list
  ignores nothing.
\<close>

theorem shouldIgnore_union:
  "(shouldIgnore E name config =
      (\<exists>p \<in> set (ignorePatterns config).
          TrimSpace p = name \<or>
          (CHR ''*'' \<in> set (TrimSpace p) \<and> fst (Match E (TrimSpace p) name)))) \<and>
   (\<forall>config'. set (ignorePatterns config') = set (ignorePatterns config) \<longrightarrow>
       shouldIgnore E name config' = shouldIgnore E name config) \<and>
   (ignorePatterns config = [] \<longrightarrow> \<not> shouldIgnore E name config)"
  by (simp add: shouldIgnore_def shouldIgnoreLoop_iff)

lemma TrimSpace_examples:
  "TrimSpace ''*.log'' = ''*.log''" "TrimSpace ''.git'' = ''.git''"
  "TrimSpace ''.DS_Store'' = ''.DS_Store''" "TrimSpace ''node_modules'' = ''node_modules''"
  "TrimSpace ''?.go'' = ''?.go''" "TrimSpace ''*['' = ''*[''"
  "TrimSpace '' a'' = ''a''" "TrimSpace ''a '' = ''a''"
  by code_simp+

theorem shouldIgnore_union_witness:
  "shouldIgnore sampleEnv ''debug.log'' defaultConfig \<and>
   \<not> shouldIgnore sampleEnv ''main.go'' defaultConfig \<and>
   \<not> shouldIgnore sampleEnv ''main.go'' (defaultConfig\<lparr>ignorePatterns := []\<rparr>)"
  using shouldIgnore_union [of sampleEnv "''debug.log''" defaultConfig]
    shouldIgnore_union [of sampleEnv "''main.go''" defaultConfig]
    shouldIgnore_union [of sampleEnv "''main.go''" "defaultConfig\<lparr>ignorePatterns := []\<rparr>"]
  by (simp add: defaultConfig_def sampleEnv_def globMatch_def TrimSpace_examples)

text \<open>
  Claim C2 as stated fails: \<open>?.go\<close> contains a wildcard character and matches \<open>a.go\<close> as a
  glob, yet \<open>a.go\<close> is not ignored, because only a pattern with \<open>*\<close> is given to the
  matcher. The pattern is also trimmed before the comparison, so a pattern can fail to
  ignore the name it equals and can ignore a name it does not equal.
\<close>

theorem shouldIgnore_wildcard_counterexample:
  "CHR ''?'' \<in> set ''?.go'' \<and> fst (globMatch ''?.go'' ''a.go'') \<and>
   \<not> shouldIgnore sampleEnv ''a.go'' (defaultConfig\<lparr>ignorePatterns := [''?.go'']\<rparr>) \<and>
   \<not> shouldIgnore sampleEnv '' a'' (defaultConfig\<lparr>ignorePatterns := ['' a'']\<rparr>) \<and>
   shouldIgnore sampleEnv ''a'' (defaultConfig\<lparr>ignorePatterns := [''a '']\<rparr>)"
  by (simp add: shouldIgnore_def defaultConfig_def sampleEnv_def globMatch_def
      TrimSpace_examples ContainsByte_def)

text \<open>
  Claim C10. A pattern (as the program stores it, trimmed) that contains \<open>*\<close> and for which
  \<open>filepath.Match\<close> reports an error contributes to \<open>shouldIgnore\<close> only by equality with
  the name: the error is dropped and, \<open>filepath.Match\<close> returning no match together with
  an error, the glob branch does not fire. The other patterns of the list decide as they
  would without it.
\<close>

theorem malformed_glob_only_equality:
  assumes "TrimSpace p = p"
    and "CHR ''*'' \<in> set p"
    and "snd (Match E p name) \<noteq> None"
    and "\<forall>q n. snd (Match E q n) \<noteq> None \<longrightarrow> \<not> fst (Match E q n)"
  shows "shouldIgnore E name (config\<lparr>ignorePatterns := ps @ p # qs\<rparr>) =
           (p = name \<or> shouldIgnore E name (config\<lparr>ignorePatterns := ps @ qs\<rparr>))"
proof -
  have "\<not> fst (Match E p name)"
    using assms(3,4) by blast
  then show ?thesis
    using assms(1) by (auto simp: shouldIgnore_def shouldIgnoreLoop_iff)
qed

theorem malformed_glob_only_equality_witness:
  "shouldIgnore sampleEnv ''*['' (defaultConfig\<lparr>ignorePatterns := [''*['']\<rparr>) \<and>
   \<not> shouldIgnore sampleEnv ''a['' (defaultConfig\<lparr>ignorePatterns := [''*['']\<rparr>) \<and>
   snd (globMatch ''*['' ''a['') = Some ErrBadPattern"
proof -
  have c: "\<forall>q n. snd (Match sampleEnv q n) \<noteq> None \<longrightarrow> \<not> fst (Match sampleEnv q n)"
    by (simp add: sampleEnv_def globMatch_def)
  have e: "\<And>n. snd (Match sampleEnv ''*['' n) \<noteq> None"
    by (simp add: sampleEnv_def globMatch_def)
  have s: "CHR ''*'' \<in> set ''*[''" by simp
  have n: "\<And>n c. shouldIgnore sampleEnv n (c\<lparr>ignorePatterns := []\<rparr>) = False"
    by (simp add: shouldIgnore_def)
  show ?thesis
    using malformed_glob_only_equality [where E = sampleEnv and p = "''*[''" and name = "''*[''"
        and config = defaultConfig and ps = "[]" and qs = "[]", OF TrimSpace_examples(6) s e c]
      malformed_glob_only_equality [where E = sampleEnv and p = "''*[''" and name = "''a[''"
        and config = defaultConfig and ps = "[]" and qs = "[]", OF TrimSpace_examples(6) s e c]
    by (simp add: n globMatch_def)
qed


section \<open>The classifier\<close>

lemma nullByteFrom_iff:
  "nullByteFrom buffer n i = (\<exists>j. i \<le> j \<and> j < n \<and> buffer ! j = CHR 0x00)"
proof (induction buffer n i rule: nullByteFrom.induct)
  case (1 buffer n i)
  show ?case
  proof (cases "i < n")
    case False
    then show ?thesis by (subst nullByteFrom.simps) auto
  next
    case True
    show ?thesis
    proof (cases "buffer ! i = CHR 0x00")
      case True
      with \<open>i < n\<close> show ?thesis by (subst nullByteFrom.simps) auto
    next
      case False
      have "nullByteFrom buffer n i = nullByteFrom buffer n (i + 1)"
        using True False by (subst nullByteFrom.simps) simp
      also have "\<dots> = (\<exists>j. i + 1 \<le> j \<and> j < n \<and> buffer ! j = CHR 0x00)"
        using "1.IH" True False by simp
      also have "\<dots> = (\<exists>j. i \<le> j \<and> j < n \<and> buffer ! j = CHR 0x00)"
      proof -
        have "\<And>j. i \<le> j \<and> buffer ! j = CHR 0x00 \<longleftrightarrow> i + 1 \<le> j \<and> buffer ! j = CHR 0x00"
          using False by (metis Suc_eq_plus1 Suc_leI Suc_leD le_neq_implies_less)
        then show ?thesis by blast
      qed
      finally show ?thesis .
    qed
  qed
qed

lemma isTextFile_iff:
  "isTextFile f =
     (f_open_err f = None \<and> f_read_err f = None \<and> f_data f \<noteq> [] \<and>
      CHR 0x00 \<notin> set (take 512 (f_data f)))"
proof (cases "f_open_err f = None \<and> f_read_err f = None \<and> f_data f \<noteq> []")
  case False
  then show ?thesis
    by (auto simp: isTextFile_def Read_def split: option.splits)
next
  case True
  let ?d = "f_data f"
  let ?n = "min 512 (length ?d)"
  let ?b = "take 512 ?d @ replicate (512 - length ?d) (CHR 0x00)"
  have r: "Read f 512 = (?n, ?b, None)"
    using True by (simp add: Read_def)
  have "(\<exists>j. j < ?n \<and> ?b ! j = CHR 0x00) = (CHR 0x00 \<in> set (take 512 ?d))"
  proof
    assume "\<exists>j. j < ?n \<and> ?b ! j = CHR 0x00"
    then obtain j where j: "j < ?n" "?b ! j = CHR 0x00" by blast
    then have "take 512 ?d ! j = CHR 0x00" by (simp add: nth_append)
    moreover have "j < length (take 512 ?d)" using j by simp
    ultimately show "CHR 0x00 \<in> set (take 512 ?d)" by (metis nth_mem)
  next
    assume "CHR 0x00 \<in> set (take 512 ?d)"
    then obtain j where j: "j < length (take 512 ?d)" "take 512 ?d ! j = CHR 0x00"
      by (auto simp: in_set_conv_nth)
    then have "j < ?n" "?b ! j = CHR 0x00" by (simp_all add: nth_append)
    then show "\<exists>j. j < ?n \<and> ?b ! j = CHR 0x00" by blast
  qed
  then show ?thesis
    using True r by (simp add: isTextFile_def nullByteFrom_iff)
qed

text \<open>
  Claim C5. \<open>isTextFile\<close> reads at most 512 bytes; a null byte among the first 512 bytes
  makes the file binary; a file that cannot be opened or read is not text; the result
  depends only on the first 512 bytes and the two errors, and not on the name (hence not
  on the extension).
\<close>

theorem isTextFile_sniff:
  "fst (Read f 512) \<le> 512 \<and>
   (CHR 0x00 \<in> set (take 512 (f_data f)) \<longrightarrow> \<not> isTextFile f) \<and>
   (f_open_err f \<noteq> None \<or> f_read_err f \<noteq> None \<longrightarrow> \<not> isTextFile f) \<and>
   (\<forall>g. take 512 (f_data g) = take 512 (f_data f) \<and> f_open_err g = f_open_err f \<and>
        f_read_err g = f_read_err f \<longrightarrow> isTextFile g = isTextFile f) \<and>
   (\<forall>n. isTextFile (f\<lparr>f_name := n\<rparr>) = isTextFile f)"
proof -
  have 1: "fst (Read f 512) \<le> 512"
    by (simp add: Read_def split: option.splits)
  have 2: "CHR 0x00 \<in> set (take 512 (f_data f)) \<longrightarrow> \<not> isTextFile f"
    by (simp add: isTextFile_iff)
  have 3: "f_open_err f \<noteq> None \<or> f_read_err f \<noteq> None \<longrightarrow> \<not> isTextFile f"
    by (auto simp: isTextFile_iff)
  have 4: "isTextFile g = isTextFile f"
    if t: "take 512 (f_data g) = take 512 (f_data f)" and "f_open_err g = f_open_err f"
       and "f_read_err g = f_read_err f" for g
  proof -
    have "(f_data g = []) = (f_data f = [])"
      by (metis t take_eq_Nil zero_neq_numeral)
    then show ?thesis
      using that by (simp add: isTextFile_iff)
  qed
  have 5: "\<forall>n. isTextFile (f\<lparr>f_name := n\<rparr>) = isTextFile f"
    by (simp add: isTextFile_iff)
  show ?thesis
    using 1 2 3 4 5 by blast
qed

theorem isTextFile_sniff_witness:
  "\<not> isTextFile nullLeaf \<and> \<not> isTextFile (nullLeaf\<lparr>f_name := ''a.bin''\<rparr>) \<and>
   \<not> isTextFile (nullLeaf\<lparr>f_data := ''abcd'', f_open_err := Some ''permission denied''\<rparr>)"
proof -
  have z: "CHR 0x00 \<in> set (take 512 (f_data nullLeaf))"
    by (simp add: nullLeaf_def)
  have a: "\<not> isTextFile nullLeaf"
    using isTextFile_sniff [of nullLeaf] z by blast
  have b: "\<not> isTextFile (nullLeaf\<lparr>f_name := ''a.bin''\<rparr>)"
    using isTextFile_sniff [of nullLeaf] a by blast
  have o: "f_open_err (nullLeaf\<lparr>f_data := ''abcd'', f_open_err := Some ''permission denied''\<rparr>) \<noteq> None"
    by simp
  have c: "\<not> isTextFile (nullLeaf\<lparr>f_data := ''abcd'', f_open_err := Some ''permission denied''\<rparr>)"
    using isTextFile_sniff [of "nullLeaf\<lparr>f_data := ''abcd'', f_open_err := Some ''permission denied''\<rparr>"] o
    by blast
  show ?thesis using a b c by blast
qed

lemma natDigits_small: "n < 10 \<Longrightarrow> natDigits n = [''0123456789'' ! n]"
  by (subst natDigits.simps) simp

lemma formatFileSize_zero: "formatFileSize E 0 = ''0 B''"
  by (simp add: formatFileSize_def FormatInt_def natDigits_small)

lemma contentFn_file:
  assumes "filteredIn E config path f" and "f_info f = Inr sz"
  shows "contentFn E config path (File f) None out =
     (if sint sz > 1024 * 1024 then
        (out @ [(path, noteTooLarge E (shownPath path f) (sint sz))], Continue)
      else if \<not> isTextFile f then
        (out @ [(path, noteBinary E (shownPath path f) (sint sz))], Continue)
      else (case ReadFile f of
              Inl e \<Rightarrow> (out @ [(path, noteReadError (shownPath path f) e)], Continue)
            | Inr content \<Rightarrow>
                (out @ [(path, fileSection E (shownPath path f) (sint sz)
                           (getLanguageFromExtension (ToLower E (Ext (f_name f)))) content)],
                 Continue)))"
  using assms unfolding contentFn_def filteredIn_def shownPath_def
  by (simp add: Let_def split: sum.splits)

text \<open>
  Claim C9. A file without bytes is not text for \<open>isTextFile\<close> (the read returns 0 bytes
  and \<open>io.EOF\<close>), and the content walk writes the binary placeholder for it, not a fenced
  block.
\<close>

theorem empty_file_is_binary:
  assumes "f_data f = []" and "f_info f = Inr 0" and "filteredIn E config path f"
  shows "\<not> isTextFile f \<and>
         contentFn E config path (File f) None out =
           (out @ [(path, heading (shownPath path f) @ ''*Binary file (0 B)*'' @ nl @ nl)], Continue)"
proof -
  have t: "\<not> isTextFile f"
    using assms(1) by (simp add: isTextFile_iff)
  show ?thesis
    using t contentFn_file [OF assms(3) assms(2), of out]
    by (simp add: noteBinary_def formatFileSize_zero)
qed

lemma filteredIn_emptyLeaf: "filteredIn sampleEnv contentConfig [''empty.txt''] emptyLeaf"
  unfolding filteredIn_def
  by (simp add: contentConfig_def defaultConfig_def emptyLeaf_def Rel_def shouldIgnore_def
      sampleEnv_def globMatch_def TrimSpace_examples ContainsByte_def HasPrefix_def)

theorem empty_file_is_binary_witness:
  "\<not> isTextFile emptyLeaf \<and>
   contentFn sampleEnv contentConfig [''empty.txt''] (File emptyLeaf) None [] =
     ([([''empty.txt''], heading ''empty.txt'' @ ''*Binary file (0 B)*'' @ nl @ nl)], Continue)"
proof -
  have d: "f_data emptyLeaf = []" and i: "f_info emptyLeaf = Inr 0"
    by (simp_all add: emptyLeaf_def)
  have s: "shownPath [''empty.txt''] emptyLeaf = ''empty.txt''"
    by (simp add: shownPath_def Rel_def)
  show ?thesis
    using empty_file_is_binary [OF d i filteredIn_emptyLeaf, of "[]"] by (simp add: s)
qed


section \<open>Soft errors of the content walk\<close>




section \<open>The order of the entries\<close>

lemma less_entry_asym: "less_entry a b \<Longrightarrow> \<not> less_entry b a"
  by (auto simp: less_entry_def split: if_splits)

lemma less_entry_trans: "less_entry a b \<Longrightarrow> less_entry b c \<Longrightarrow> less_entry a c"
  by (auto simp: less_entry_def split: if_splits)

lemma less_entry_total: "Name a \<noteq> Name b \<Longrightarrow> less_entry a b \<or> less_entry b a"
  by (auto simp: less_entry_def)

lemma not_less_entry_trans:
  "\<not> less_entry b a \<Longrightarrow> \<not> less_entry c b \<Longrightarrow> \<not> less_entry c a"
  by (auto simp: less_entry_def split: if_splits)

lemma mset_insertEntry [simp]: "mset (insertEntry x ys) = add_mset x (mset ys)"
  by (induction ys) auto

lemma mset_sortEntries [simp]: "mset (sortEntries xs) = mset xs"
  by (induction xs) auto

lemma set_insertEntry [simp]: "set (insertEntry x ys) = insert x (set ys)"
  by (induction ys) auto

lemma set_sortEntries [simp]: "set (sortEntries xs) = set xs"
  by (induction xs) auto

lemma sorted_insertEntry:
  "sorted_wrt (\<lambda>a b. \<not> less_entry b a) ys \<Longrightarrow>
   sorted_wrt (\<lambda>a b. \<not> less_entry b a) (insertEntry x ys)"
proof (induction ys)
  case Nil
  then show ?case by simp
next
  case (Cons y ys)
  show ?case
  proof (cases "less_entry y x")
    case True
    then have "\<not> less_entry x y" by (rule less_entry_asym)
    with Cons True show ?thesis by auto
  next
    case False
    have "\<forall>z \<in> set ys. \<not> less_entry z x"
      using Cons.prems False not_less_entry_trans [of y x] by auto
    with Cons.prems False show ?thesis by auto
  qed
qed

lemma sorted_sortEntries: "sorted_wrt (\<lambda>a b. \<not> less_entry b a) (sortEntries xs)"
  by (induction xs) (auto intro: sorted_insertEntry)

lemma strict_of_distinct:
  "sorted_wrt (\<lambda>a b. \<not> less_entry b a) ys \<Longrightarrow> distinct (map Name ys) \<Longrightarrow>
   sorted_wrt less_entry ys"
proof (induction ys)
  case Nil
  then show ?case by simp
next
  case (Cons y ys)
  have "less_entry y z" if "z \<in> set ys" for z
  proof -
    have "Name y \<noteq> Name z" using Cons.prems(2) that by auto
    moreover have "\<not> less_entry z y" using Cons.prems(1) that by auto
    ultimately show ?thesis using less_entry_total by blast
  qed
  with Cons show ?case by auto
qed

lemma sorted_wrt_less_entry_unique:
  "sorted_wrt less_entry xs \<Longrightarrow> sorted_wrt less_entry ys \<Longrightarrow> mset xs = mset ys \<Longrightarrow> xs = ys"
proof (induction xs arbitrary: ys)
  case Nil
  then show ?case by simp
next
  case (Cons x xs)
  then obtain y ys' where ys: "ys = y # ys'"
    by (cases ys) auto
  have xin: "x \<in> set ys" and yin: "y \<in> set (x # xs)"
    using Cons.prems(3) ys by (metis list.set_intros(1) set_mset_mset)+
  have "x = y"
  proof (rule ccontr)
    assume ne: "x \<noteq> y"
    then have "x \<in> set ys'" "y \<in> set xs" using xin yin ys by auto
    then have "less_entry y x" "less_entry x y"
      using Cons.prems(1,2) ys by auto
    then show False using less_entry_asym by blast
  qed
  moreover have "xs = ys'"
    using Cons.IH [of ys'] Cons.prems ys \<open>x = y\<close> by auto
  ultimately show ?case using ys by simp
qed

lemma dirs_first:
  "sorted_wrt less_entry ys \<Longrightarrow> ys = filter IsDir ys @ filter (\<lambda>e. \<not> IsDir e) ys"
proof (induction ys)
  case Nil
  then show ?case by simp
next
  case (Cons y ys)
  show ?case
  proof (cases "IsDir y")
    case True
    with Cons show ?thesis by auto
  next
    case False
    have "\<forall>z \<in> set ys. \<not> IsDir z"
      using Cons.prems False by (auto simp: less_entry_def split: if_splits)
    then have "filter IsDir ys = []" "filter (\<lambda>e. \<not> IsDir e) ys = ys"
      by (auto simp: filter_empty_conv filter_id_conv)
    with False show ?thesis by simp
  qed
qed

lemma names_ascend:
  "sorted_wrt less_entry ys \<Longrightarrow> \<forall>y \<in> set ys. IsDir y = b \<Longrightarrow> sorted_wrt (<) (map Name ys)"
  by (induction ys) (auto simp: less_entry_def split: if_splits)

text \<open>
  Claim C6. For the entries of one directory (distinct names) the sorted list is a
  permutation of the input in which every directory precedes every file and the names
  ascend strictly, byte-wise, within the directories and within the files. Any two
  entries are comparable, and every list that is a permutation of the input and sorted
  for the comparison is this list: the order of the output does not depend on the sorting
  algorithm, and sorting again changes nothing.
\<close>

theorem tree_order_total:
  assumes "distinct (map Name xs)"
  shows "mset (sortEntries xs) = mset xs \<and>
         sorted_wrt less_entry (sortEntries xs) \<and>
         sortEntries xs = filter IsDir (sortEntries xs) @ filter (\<lambda>e. \<not> IsDir e) (sortEntries xs) \<and>
         sorted_wrt (<) (map Name (filter IsDir (sortEntries xs))) \<and>
         sorted_wrt (<) (map Name (filter (\<lambda>e. \<not> IsDir e) (sortEntries xs))) \<and>
         (\<forall>a \<in> set xs. \<forall>b \<in> set xs. a \<noteq> b \<longrightarrow> less_entry a b \<or> less_entry b a) \<and>
         (\<forall>ys. mset ys = mset xs \<and> sorted_wrt (\<lambda>a b. \<not> less_entry b a) ys \<longrightarrow> ys = sortEntries xs) \<and>
         sortEntries (sortEntries xs) = sortEntries xs"
proof -
  have d: "distinct (map Name ys)" if "mset ys = mset xs" for ys
  proof -
    have "mset (map Name ys) = mset (map Name xs)" using that by simp
    then show ?thesis using assms by (metis mset_eq_imp_distinct_iff)
  qed
  have s: "sorted_wrt less_entry (sortEntries xs)"
    using strict_of_distinct [OF sorted_sortEntries d] by simp
  have u: "ys = sortEntries xs"
    if "mset ys = mset xs" "sorted_wrt (\<lambda>a b. \<not> less_entry b a) ys" for ys
    using sorted_wrt_less_entry_unique [OF strict_of_distinct [OF that(2) d [OF that(1)]] s] that(1)
    by simp
  have t: "less_entry a b \<or> less_entry b a" if "a \<in> set xs" "b \<in> set xs" "a \<noteq> b" for a b
  proof -
    have "Name a \<noteq> Name b"
      using assms that by (meson distinct_map inj_onD)
    then show ?thesis by (rule less_entry_total)
  qed
  have f1: "sorted_wrt (<) (map Name (filter IsDir (sortEntries xs)))"
  proof (rule names_ascend [where b = True])
    show "sorted_wrt less_entry (filter IsDir (sortEntries xs))"
      using s by (rule sorted_wrt_filter)
    show "\<forall>y \<in> set (filter IsDir (sortEntries xs)). IsDir y = True"
      by simp
  qed
  have f2: "sorted_wrt (<) (map Name (filter (\<lambda>e. \<not> IsDir e) (sortEntries xs)))"
  proof (rule names_ascend [where b = False])
    show "sorted_wrt less_entry (filter (\<lambda>e. \<not> IsDir e) (sortEntries xs))"
      using s by (rule sorted_wrt_filter)
    show "\<forall>y \<in> set (filter (\<lambda>e. \<not> IsDir e) (sortEntries xs)). IsDir y = False"
      by simp
  qed
  have i: "sortEntries (sortEntries xs) = sortEntries xs"
    using u [of "sortEntries (sortEntries xs)"] sorted_sortEntries by simp
  show ?thesis
  proof (intro conjI)
    show "mset (sortEntries xs) = mset xs" by simp
    show "sorted_wrt less_entry (sortEntries xs)" by (rule s)
    show "sortEntries xs = filter IsDir (sortEntries xs) @ filter (\<lambda>e. \<not> IsDir e) (sortEntries xs)"
      by (rule dirs_first [OF s])
    show "sorted_wrt (<) (map Name (filter IsDir (sortEntries xs)))" by (rule f1)
    show "sorted_wrt (<) (map Name (filter (\<lambda>e. \<not> IsDir e) (sortEntries xs)))" by (rule f2)
    show "\<forall>a \<in> set xs. \<forall>b \<in> set xs. a \<noteq> b \<longrightarrow> less_entry a b \<or> less_entry b a"
      using t by blast
    show "\<forall>ys. mset ys = mset xs \<and> sorted_wrt (\<lambda>a b. \<not> less_entry b a) ys \<longrightarrow> ys = sortEntries xs"
      using u by blast
    show "sortEntries (sortEntries xs) = sortEntries xs" by (rule i)
  qed
qed

theorem tree_order_total_witness:
  "sortEntries sampleListing =
     [Dir ''alpha'' None [], Dir ''zeta'' None [], regular ''B.txt'' [], regular ''b.txt'' []]"
proof -
  let ?ys = "[Dir ''alpha'' None [], Dir ''zeta'' None [], regular ''B.txt'' [], regular ''b.txt'' []]"
  have d: "distinct (map Name sampleListing)"
    by (simp add: sampleListing_def regular_def)
  have m: "mset ?ys = mset sampleListing"
    by (simp add: sampleListing_def)
  have o: "sorted_wrt (\<lambda>a b. \<not> less_entry b a) ?ys"
    by (simp add: less_entry_def regular_def)
  note T = tree_order_total [OF d]
  note U = T [THEN conjunct2, THEN conjunct2, THEN conjunct2, THEN conjunct2, THEN conjunct2,
      THEN conjunct2, THEN conjunct1]
  from U [THEN spec, of ?ys] m o show ?thesis
    by (simp only: simp_thms)
qed

section \<open>The depth limit\<close>

lemma filterEntries_filter: "filterEntries E c xs = filter (keepEntry E c) xs"
  by (induction xs) auto

lemma distinct_names_sortEntries:
  "distinct (map Name (sortEntries xs)) = distinct (map Name xs)"
proof -
  have "mset (map Name (sortEntries xs)) = mset (map Name xs)" by simp
  then show ?thesis by (rule mset_eq_imp_distinct_iff)
qed

lemma find_unique_name:
  "distinct (map Name ks) \<Longrightarrow>
   (find (\<lambda>k. Name k = x) ks = Some k) = (k \<in> set ks \<and> Name k = x)"
  by (induction ks) auto

lemma shownAt_Cons:
  assumes "distinct (map Name ks)"
  shows "shownAt E c ks (x # xs) =
           (\<exists>k \<in> set ks. Name k = x \<and> keepEntry E c k \<and> (xs = [] \<or> shownAt E c (kids k) xs))"
proof (cases "find (\<lambda>k. Name k = x) ks")
  case None
  then have "\<forall>k \<in> set ks. Name k \<noteq> x" by (simp add: find_None_iff)
  with None show ?thesis by auto
next
  case (Some k)
  then have k: "k \<in> set ks" "Name k = x"
    using find_unique_name [OF assms] by auto
  have u: "k' = k" if "k' \<in> set ks" "Name k' = x" for k'
    using find_unique_name [OF assms, of x k'] that Some by simp
  have l: "shownAt E c ks (x # xs) = (keepEntry E c k \<and> (xs = [] \<or> shownAt E c (kids k) xs))"
    by (simp add: Some)
  show ?thesis
    unfolding l
  proof
    assume "keepEntry E c k \<and> (xs = [] \<or> shownAt E c (kids k) xs)"
    then show "\<exists>k \<in> set ks. Name k = x \<and> keepEntry E c k \<and> (xs = [] \<or> shownAt E c (kids k) xs)"
      using k by blast
  next
    assume "\<exists>k \<in> set ks. Name k = x \<and> keepEntry E c k \<and> (xs = [] \<or> shownAt E c (kids k) xs)"
    then obtain k' where "k' \<in> set ks" "Name k' = x" "keepEntry E c k'"
      "xs = [] \<or> shownAt E c (kids k') xs" by blast
    then show "keepEntry E c k \<and> (xs = [] \<or> shownAt E c (kids k) xs)"
      using u [of k'] by simp
  qed
qed

lemma shownAt_nonempty: "shownAt E c ks q \<Longrightarrow> q \<noteq> []"
  by (cases q) auto

lemma writeEntries_paths:
  assumes "\<And>e dir prefix out. e \<in> set es \<Longrightarrow>
             writeTree E c dir prefix (Suc depth) e = (out, None) \<Longrightarrow>
             distinct (map fst out) \<and>
             set (map fst out) = {dir @ q |q. shownAt E c (kids e) q \<and> depthOK c (Suc depth) q}"
    and "distinct (map Name es)"
    and "\<forall>e \<in> set es. \<not> IsDir e \<longrightarrow> kids e = []"
    and "writeEntries E c dir prefix depth es = (out, None)"
  shows "distinct (map fst out) \<and>
         set (map fst out) =
           {dir @ Name e # q |e q. e \<in> set es \<and>
              (q = [] \<or> (shownAt E c (kids e) q \<and> depthOK c (Suc depth) q))}"
  using assms
proof (induction es arbitrary: out)
  case Nil
  then show ?case by simp
next
  case (Cons e rest)
  let ?S = "\<lambda>es. {dir @ Name e # q |e q. e \<in> set es \<and>
              (q = [] \<or> (shownAt E c (kids e) q \<and> depthOK c (Suc depth) q))}"
  let ?line = "(dir @ [Name e],
      prefix @ (if rest = [] then connectorLast else connectorMid) @ displayName c e @ nl)"
  let ?np = "if rest = [] then prefix @ prefixLast else prefix @ prefixMid"
  obtain o1 r1 where w1: "writeTree E c (dir @ [Name e]) ?np (depth + 1) e = (o1, r1)"
    by (cases "writeTree E c (dir @ [Name e]) ?np (depth + 1) e") auto
  obtain o2 r2 where w2: "writeEntries E c dir prefix depth rest = (o2, r2)"
    by (cases "writeEntries E c dir prefix depth rest") auto
  have split: "?S (e # rest) = {dir @ Name e # q |q. q = [] \<or> (shownAt E c (kids e) q \<and> depthOK c (Suc depth) q)} \<union> ?S rest"
    by auto
  have other: "dir @ Name e # q \<notin> ?S rest" for q
    using Cons.prems(2) by auto
  have rest: "distinct (map fst o2) \<and> set (map fst o2) = ?S rest" if "r2 = None"
  proof (rule Cons.IH)
    show "distinct (map fst out) \<and>
          set (map fst out) = {dir @ q |q. shownAt E c (kids e') q \<and> depthOK c (Suc depth) q}"
      if "e' \<in> set rest" "writeTree E c dir prefix (Suc depth) e' = (out, None)"
      for e' dir prefix out
      using Cons.prems(1) [of e' dir prefix out] that by simp
    show "distinct (map Name rest)" using Cons.prems(2) by simp
    show "\<forall>e \<in> set rest. \<not> IsDir e \<longrightarrow> kids e = []" using Cons.prems(3) by simp
    show "writeEntries E c dir prefix depth rest = (o2, None)" using w2 that by simp
  qed
  show ?case
  proof (cases "IsDir e")
    case True
    have r: "r1 = None" "r2 = None" and out: "out = ?line # o1 @ o2"
      using Cons.prems(4) True w1 w2 by (auto simp: Let_def split: option.splits)
    have "writeTree E c (dir @ [Name e]) ?np (Suc depth) e = (o1, None)"
      using w1 r by simp
    then have 1: "distinct (map fst o1)"
       "set (map fst o1) = {(dir @ [Name e]) @ q |q. shownAt E c (kids e) q \<and> depthOK c (Suc depth) q}"
      using Cons.prems(1) [of e "dir @ [Name e]" ?np o1] by simp_all
    have 2: "distinct (map fst o2)" "set (map fst o2) = ?S rest"
      using rest r by simp_all
    have s1: "set (map fst o1) = {dir @ Name e # q |q. shownAt E c (kids e) q \<and> depthOK c (Suc depth) q}"
      using 1(2) by simp
    have d1: "dir @ [Name e] \<notin> set (map fst o1)"
      unfolding s1 using shownAt_nonempty by fastforce
    have d2: "dir @ [Name e] \<notin> set (map fst o2)"
      unfolding 2(2) using other [of "[]"] by simp
    have d3: "set (map fst o1) \<inter> set (map fst o2) = {}"
      unfolding s1 2(2) using other by blast
    have "set (map fst out) = ?S (e # rest)"
      unfolding split out using s1 2(2) by auto
    moreover have "distinct (map fst out)"
      using out 1(1) 2(1) d1 d2 d3 by simp
    ultimately show ?thesis by blast
  next
    case False
    have r: "r2 = None" and out: "out = ?line # o2"
      using Cons.prems(4) False w2 by (auto simp: Let_def)
    have 2: "distinct (map fst o2)" "set (map fst o2) = ?S rest"
      using rest r by simp_all
    have k: "kids e = []" using Cons.prems(3) False by simp
    have d2: "dir @ [Name e] \<notin> set (map fst o2)"
      unfolding 2(2) using other [of "[]"] by simp
    have "{dir @ Name e # q |q. q = [] \<or> (shownAt E c (kids e) q \<and> depthOK c (Suc depth) q)} = {dir @ [Name e]}"
    proof -
      have "\<not> shownAt E c [] q" for q by (cases q) auto
      then show ?thesis unfolding k by auto
    qed
    then have "set (map fst out) = ?S (e # rest)"
      unfolding split out using 2(2) by simp
    moreover have "distinct (map fst out)"
      using out 2(1) d2 by simp
    ultimately show ?thesis by blast
  qed
qed

lemma kids_not_dir: "\<not> IsDir e \<Longrightarrow> kids e = []"
  by (cases e) auto

lemma depthOK_Cons: "q \<noteq> [] \<Longrightarrow> depthOK c depth (x # q) = depthOK c (Suc depth) q"
  by (simp add: depthOK_def)

lemma depthOK_single: "depthOK c depth [x] = (\<not> (maxDepth c \<ge> 0 \<and> int depth > maxDepth c))"
  by (auto simp: depthOK_def)

lemma depthOK_too_deep:
  "maxDepth c \<ge> 0 \<Longrightarrow> int depth > maxDepth c \<Longrightarrow> q \<noteq> [] \<Longrightarrow> \<not> depthOK c depth q"
  by (cases q) (auto simp: depthOK_def)

lemma writeTree_paths:
  "uniqueNames d \<Longrightarrow> writeTree E c dir prefix depth d = (out, None) \<Longrightarrow>
   distinct (map fst out) \<and>
   set (map fst out) = {dir @ q |q. shownAt E c (kids d) q \<and> depthOK c depth q}"
proof (induction d arbitrary: dir prefix depth out)
  case (File f)
  have "\<not> shownAt E c [] q" for q by (cases q) auto
  moreover have "out = []"
    using File.prems(2) by (subst (asm) writeTree.simps) (auto split: if_splits)
  ultimately show ?case by simp
next
  case (Dir n e ks)
  show ?case
  proof (cases "maxDepth c \<ge> 0 \<and> int depth > maxDepth c")
    case True
    have "out = []"
      using Dir.prems(2) True by (subst (asm) writeTree.simps) simp
    moreover have "\<not> (shownAt E c ks q \<and> depthOK c depth q)" for q
      using depthOK_too_deep [of c depth q] shownAt_nonempty [of E c ks q] True by blast
    ultimately show ?thesis by simp
  next
    case False
    let ?es = "sortEntries (filterEntries E c ks)"
    have e: "e = None" and w: "writeEntries E c dir prefix depth ?es = (out, None)"
      using Dir.prems(2) False
      by (subst (asm) writeTree.simps, cases e, auto)+
    have sub: "set ?es = {k \<in> set ks. keepEntry E c k}"
      by (simp add: filterEntries_filter)
    have dn: "distinct (map Name ks)" using Dir.prems(1) by simp
    have des: "distinct (map Name ?es)"
      using dn by (simp add: distinct_names_sortEntries filterEntries_filter distinct_map_filter)
    have P: "distinct (map fst out) \<and>
         set (map fst out) =
           {dir @ Name e # q |e q. e \<in> set ?es \<and>
              (q = [] \<or> (shownAt E c (kids e) q \<and> depthOK c (Suc depth) q))}"
    proof (rule writeEntries_paths [OF _ des _ w])
      show "distinct (map fst out) \<and>
            set (map fst out) = {dir @ q |q. shownAt E c (kids e') q \<and> depthOK c (Suc depth) q}"
        if "e' \<in> set ?es" "writeTree E c dir prefix (Suc depth) e' = (out, None)"
        for e' dir prefix out
      proof (rule Dir.IH)
        show "e' \<in> set ks" using that(1) sub by simp
        then show "uniqueNames e'" using Dir.prems(1) by simp
        show "writeTree E c dir prefix (Suc depth) e' = (out, None)" by (rule that(2))
      qed
      show "\<forall>e \<in> set ?es. \<not> IsDir e \<longrightarrow> kids e = []"
        using kids_not_dir by blast
    qed
    have "{dir @ Name e # q |e q. e \<in> set ?es \<and>
              (q = [] \<or> (shownAt E c (kids e) q \<and> depthOK c (Suc depth) q))} =
          {dir @ q |q. shownAt E c ks q \<and> depthOK c depth q}" (is "?A = ?B")
    proof (rule set_eqI)
      fix p
      have "p \<in> ?B \<longleftrightarrow> (\<exists>x q. p = dir @ x # q \<and> shownAt E c ks (x # q) \<and> depthOK c depth (x # q))"
      proof
        assume "p \<in> ?B"
        then obtain r where r: "p = dir @ r" "shownAt E c ks r" "depthOK c depth r" by blast
        then obtain x q where "r = x # q" using shownAt_nonempty by (cases r) auto
        with r show "\<exists>x q. p = dir @ x # q \<and> shownAt E c ks (x # q) \<and> depthOK c depth (x # q)"
          by blast
      next
        assume "\<exists>x q. p = dir @ x # q \<and> shownAt E c ks (x # q) \<and> depthOK c depth (x # q)"
        then show "p \<in> ?B" by blast
      qed
      also have "\<dots> \<longleftrightarrow> (\<exists>x q. p = dir @ x # q \<and>
          (\<exists>k \<in> set ks. Name k = x \<and> keepEntry E c k \<and> (q = [] \<or> shownAt E c (kids k) q)) \<and>
          depthOK c depth (x # q))"
        by (simp only: shownAt_Cons [OF dn])
      also have "\<dots> \<longleftrightarrow> (\<exists>k q. p = dir @ Name k # q \<and> k \<in> set ks \<and> keepEntry E c k \<and>
          (q = [] \<or> (shownAt E c (kids k) q \<and> depthOK c (Suc depth) q)))"
      proof -
        have "((q = [] \<or> shownAt E c (kids k) q) \<and> depthOK c depth (x # q)) =
              (q = [] \<or> (shownAt E c (kids k) q \<and> depthOK c (Suc depth) q))" for k q x
        proof (cases "q = []")
          case True
          then show ?thesis using False by (simp add: depthOK_single)
        next
          case False
          then show ?thesis by (simp add: depthOK_Cons)
        qed
        then show ?thesis by blast
      qed
      also have "\<dots> \<longleftrightarrow> p \<in> ?A"
        unfolding sub by blast
      finally show "p \<in> ?A \<longleftrightarrow> p \<in> ?B" by simp
    qed
    with P show ?thesis by simp
  qed
qed

lemma writeEntries_ok:
  assumes "\<And>e dir prefix. e \<in> set es \<Longrightarrow> IsDir e \<Longrightarrow>
             snd (writeTree E c dir prefix (Suc depth) e) = None"
  shows "snd (writeEntries E c dir prefix depth es) = None"
  using assms
proof (induction es)
  case Nil
  then show ?case by simp
next
  case (Cons e rest)
  let ?np = "if rest = [] then prefix @ prefixLast else prefix @ prefixMid"
  have "snd (writeEntries E c dir prefix depth rest) = None"
    using Cons by simp
  then obtain o2 where w2: "writeEntries E c dir prefix depth rest = (o2, None)"
    by (cases "writeEntries E c dir prefix depth rest") auto
  show ?case
  proof (cases "IsDir e")
    case True
    have "snd (writeTree E c (dir @ [Name e]) ?np (Suc depth) e) = None"
      using Cons.prems [of e] True by simp
    then obtain o1 where w1: "writeTree E c (dir @ [Name e]) ?np (Suc depth) e = (o1, None)"
      by (cases "writeTree E c (dir @ [Name e]) ?np (Suc depth) e") auto
    show ?thesis
      using True w1 w2 by (simp add: Let_def)
  next
    case False
    then show ?thesis
      using w2 by (simp add: Let_def)
  qed
qed

lemma writeTree_ok:
  "listable d \<Longrightarrow> IsDir d \<Longrightarrow> snd (writeTree E c dir prefix depth d) = None"
proof (induction d arbitrary: dir prefix depth)
  case (File f)
  then show ?case by simp
next
  case (Dir n e ks)
  have e: "e = None" using Dir.prems(1) by simp
  have "snd (writeEntries E c dir prefix depth (sortEntries (filterEntries E c ks))) = None"
  proof (rule writeEntries_ok)
    fix k dir prefix
    assume "k \<in> set (sortEntries (filterEntries E c ks))" "IsDir k"
    then have "k \<in> set ks" by (simp add: filterEntries_filter)
    then show "snd (writeTree E c dir prefix (Suc depth) k) = None"
      using Dir.IH [of k] Dir.prems(1) \<open>IsDir k\<close> by simp
  qed
  then show ?case
    by (subst writeTree.simps) (simp add: e)
qed

lemma writeEntries_depth0:
  "maxDepth c = 0 \<Longrightarrow>
   snd (writeEntries E c dir prefix 0 es) = None \<and>
   map fst (fst (writeEntries E c dir prefix 0 es)) = map (\<lambda>e. dir @ [Name e]) es"
proof (induction es)
  case Nil
  then show ?case by simp
next
  case (Cons e rest)
  let ?np = "if rest = [] then prefix @ prefixLast else prefix @ prefixMid"
  have t: "writeTree E c (dir @ [Name e]) ?np (Suc 0) e = ([], None)"
    using Cons.prems by (subst writeTree.simps) simp
  obtain o2 where w2: "writeEntries E c dir prefix 0 rest = (o2, None)"
    "map fst o2 = map (\<lambda>e. dir @ [Name e]) rest"
    using Cons by (cases "writeEntries E c dir prefix 0 rest") auto
  show ?case
    using t w2 by (simp add: Let_def)
qed

lemma Split_nonempty: "Split s c \<noteq> []"
  by (induction s) auto

lemma length_Split: "length (Split s c) = Suc (length (filter (\<lambda>x. x = c) s))"
proof (induction s)
  case Nil
  then show ?case by simp
next
  case (Cons a s)
  have "length (tl (Split s c)) = length (Split s c) - 1" by simp
  with Cons Split_nonempty [of s c] show ?case by auto
qed

lemma count_JoinStrings:
  "length (filter (\<lambda>x. x = CHR ''/'') (JoinStrings p ''/'')) =
     sum_list (map (\<lambda>s. length (filter (\<lambda>x. x = CHR ''/'') s)) p) + (length p - 1)"
  by (induction p "''/''" rule: JoinStrings.induct) auto

lemma depth_mono:
  "length (Split (Rel path) (CHR ''/'')) \<le> length (Split (Rel (path @ q)) (CHR ''/''))"
proof (cases "path = []")
  case True
  then show ?thesis by (simp add: Rel_def length_Split)
next
  case False
  then show ?thesis
    by (simp add: Rel_def length_Split count_JoinStrings)
qed

lemma tooDeep_mono: "tooDeep c path \<Longrightarrow> tooDeep c (path @ q)"
  using depth_mono [of path q] by (auto simp: tooDeep_def)

lemma depth_valid:
  "p \<noteq> [] \<Longrightarrow> \<forall>x \<in> set p. CHR ''/'' \<notin> set x \<Longrightarrow>
   int (length (Split (Rel p) (CHR ''/''))) - 1 = int (length p) - 1"
proof -
  assume p: "p \<noteq> []" and v: "\<forall>x \<in> set p. CHR ''/'' \<notin> set x"
  have "\<forall>x \<in> set p. filter (\<lambda>y. y = CHR ''/'') x = []"
    using v by (auto simp: filter_empty_conv)
  then have "sum_list (map (\<lambda>s. length (filter (\<lambda>x. x = CHR ''/'') s)) p) = 0"
    by (induction p) auto
  then show ?thesis
    using p by (cases p) (simp_all add: Rel_def length_Split count_JoinStrings)
qed

lemma contentFn_dir:
  "contentFn E c path (Dir n e ks) None out = (out, if tooDeep c path then SkipDir else Continue)"
  by (simp add: contentFn_def tooDeep_def Let_def)

lemma contentFn_skip:
  "\<not> filteredIn E c path f \<Longrightarrow> contentFn E c path (File f) None out = (out, Continue)"
  by (auto simp: contentFn_def filteredIn_def Let_def)

lemma contentFn_noinfo:
  "f_info f = Inl e \<Longrightarrow> contentFn E c path (File f) None out = (out, Continue)"
  by (auto simp: contentFn_def Let_def)

lemma contentFn_emit:
  assumes "filteredIn E c path f" and "f_info f = Inr sz"
  shows "\<exists>t. contentFn E c path (File f) None out = (out @ [(path, t)], Continue)"
  by (simp add: contentFn_file [OF assms] split: sum.splits)

lemma walkDir_file:
  "\<exists>new. walkDir (contentFn E c) path (File f) out = (out @ new, Continue) \<and>
         distinct (map fst new) \<and> set (map fst new) = {p. p = path \<and> emitted E c path f}"
proof (cases "emitted E c path f")
  case True
  then obtain sz where "filteredIn E c path f" "f_info f = Inr sz"
    by (auto simp: emitted_def)
  from contentFn_emit [OF this, of out] obtain t where
    "contentFn E c path (File f) None out = (out @ [(path, t)], Continue)" by blast
  with True show ?thesis by auto
next
  case False
  then have "contentFn E c path (File f) None out = (out, Continue)"
    using contentFn_skip [of E c path f out] contentFn_noinfo [of f _ E c path out]
    by (cases "f_info f") (auto simp: emitted_def)
  with False show ?thesis by auto
qed

lemma emitted_not_tooDeep: "emitted E c p f \<Longrightarrow> \<not> tooDeep c p"
  by (simp add: emitted_def filteredIn_def tooDeep_def)

lemma fileSet_File: "fileSet E c path (File f) = {p. p = path \<and> emitted E c path f}"
proof -
  have "nodeAt (File f) q = Some (File f') \<longleftrightarrow> q = [] \<and> f' = f" for q f'
    by (cases q) auto
  then show ?thesis unfolding fileSet_def by auto
qed

lemma nodeAt_Dir:
  assumes "distinct (map Name ks)"
  shows "(nodeAt (Dir n e ks) q = Some (File f)) =
         (\<exists>k q'. q = Name k # q' \<and> k \<in> set ks \<and> nodeAt k q' = Some (File f))"
proof (cases q)
  case Nil
  then show ?thesis by simp
next
  case (Cons x q')
  show ?thesis
  proof (cases "find (\<lambda>k. Name k = x) ks")
    case None
    then have "\<forall>k \<in> set ks. Name k \<noteq> x" by (simp add: find_None_iff)
    with None Cons show ?thesis by auto
  next
    case (Some k)
    then have k: "k \<in> set ks" "Name k = x"
      using find_unique_name [OF assms] by auto
    have u: "k' = k" if "k' \<in> set ks" "Name k' = x" for k'
      using find_unique_name [OF assms, of x k'] that Some by simp
    have l: "nodeAt (Dir n e ks) q = nodeAt k q'"
      using Cons Some by simp
    show ?thesis
      unfolding l
    proof
      assume "nodeAt k q' = Some (File f)"
      then show "\<exists>k q'. q = Name k # q' \<and> k \<in> set ks \<and> nodeAt k q' = Some (File f)"
        using k Cons by blast
    next
      assume "\<exists>k q'. q = Name k # q' \<and> k \<in> set ks \<and> nodeAt k q' = Some (File f)"
      then obtain k' q'' where a: "q = Name k' # q''" "k' \<in> set ks" "nodeAt k' q'' = Some (File f)"
        by blast
      then have "k' = k" "q'' = q'" using u [of k'] Cons by simp_all
      with a show "nodeAt k q' = Some (File f)" by simp
    qed
  qed
qed

lemma fileSet_Dir:
  assumes "distinct (map Name ks)"
  shows "fileSet E c path (Dir n e ks) = (\<Union>k \<in> set ks. fileSet E c (path @ [Name k]) k)"
proof (rule set_eqI)
  fix p
  have "p \<in> fileSet E c path (Dir n e ks) \<longleftrightarrow>
        (\<exists>q f. p = path @ q \<and> (\<exists>k q'. q = Name k # q' \<and> k \<in> set ks \<and> nodeAt k q' = Some (File f)) \<and>
               emitted E c (path @ q) f)"
    unfolding fileSet_def by (simp only: nodeAt_Dir [OF assms] mem_Collect_eq)
  also have "\<dots> \<longleftrightarrow> (\<exists>k \<in> set ks. \<exists>q' f. p = (path @ [Name k]) @ q' \<and> nodeAt k q' = Some (File f) \<and>
               emitted E c ((path @ [Name k]) @ q') f)"
    by (simp only: append_assoc append_Cons append_Nil) blast
  also have "\<dots> \<longleftrightarrow> p \<in> (\<Union>k \<in> set ks. fileSet E c (path @ [Name k]) k)"
    unfolding fileSet_def by blast
  finally show "p \<in> fileSet E c path (Dir n e ks) \<longleftrightarrow> p \<in> (\<Union>k \<in> set ks. fileSet E c (path @ [Name k]) k)" .
qed

lemma fileSet_tooDeep: "tooDeep c path \<Longrightarrow> fileSet E c path d = {}"
  unfolding fileSet_def using tooDeep_mono emitted_not_tooDeep by blast

lemma fileSet_prefix: "p \<in> fileSet E c (path @ [x]) k \<Longrightarrow> \<exists>q. p = path @ x # q"
  unfolding fileSet_def by auto

lemma walkDirs_content:
  assumes "\<And>k path out. k \<in> set ks \<Longrightarrow>
            \<exists>new. walkDir (contentFn E c) path k out = (out @ new, Continue) \<and>
                  distinct (map fst new) \<and> set (map fst new) = fileSet E c path k"
    and "distinct (map Name ks)"
  shows "\<exists>new. walkDirs (contentFn E c) path ks out = (out @ new, Continue) \<and>
               distinct (map fst new) \<and>
               set (map fst new) = (\<Union>k \<in> set ks. fileSet E c (path @ [Name k]) k)"
  using assms
proof (induction ks arbitrary: out)
  case Nil
  then show ?case by simp
next
  case (Cons k ks)
  obtain n1 where 1: "walkDir (contentFn E c) (path @ [Name k]) k out = (out @ n1, Continue)"
    "distinct (map fst n1)" "set (map fst n1) = fileSet E c (path @ [Name k]) k"
    using Cons.prems(1) [of k "path @ [Name k]" out] by auto
  have "\<exists>new. walkDirs (contentFn E c) path ks (out @ n1) = ((out @ n1) @ new, Continue) \<and>
               distinct (map fst new) \<and>
               set (map fst new) = (\<Union>k \<in> set ks. fileSet E c (path @ [Name k]) k)"
  proof (rule Cons.IH)
    show "\<exists>new. walkDir (contentFn E c) path k' out = (out @ new, Continue) \<and>
                  distinct (map fst new) \<and> set (map fst new) = fileSet E c path k'"
      if "k' \<in> set ks" for k' path out
      using Cons.prems(1) [of k' path out] that by simp
    show "distinct (map Name ks)" using Cons.prems(2) by simp
  qed
  then obtain n2 where 2: "walkDirs (contentFn E c) path ks (out @ n1) = ((out @ n1) @ n2, Continue)"
    "distinct (map fst n2)" "set (map fst n2) = (\<Union>k \<in> set ks. fileSet E c (path @ [Name k]) k)"
    by blast
  have disj: "set (map fst n1) \<inter> set (map fst n2) = {}"
  proof (rule ccontr)
    assume "set (map fst n1) \<inter> set (map fst n2) \<noteq> {}"
    then obtain p where "p \<in> fileSet E c (path @ [Name k]) k"
      "p \<in> (\<Union>k \<in> set ks. fileSet E c (path @ [Name k]) k)"
      using 1(3) 2(3) by blast
    then obtain k' q q' where "k' \<in> set ks" "p = path @ Name k # q" "p = path @ Name k' # q'"
      using fileSet_prefix by blast
    then have "Name k = Name k'" "k' \<in> set ks" by simp_all
    then show False using Cons.prems(2) by auto
  qed
  have "walkDirs (contentFn E c) path (k # ks) out = (out @ (n1 @ n2), Continue)"
    using 1(1) 2(1) by simp
  moreover have "distinct (map fst (n1 @ n2))"
    using 1(2) 2(2) disj by simp
  moreover have "set (map fst (n1 @ n2)) = (\<Union>k \<in> set (k # ks). fileSet E c (path @ [Name k]) k)"
    using 1(3) 2(3) by simp
  ultimately show ?case by blast
qed

lemma walkDir_content:
  "listable d \<Longrightarrow> uniqueNames d \<Longrightarrow>
   \<exists>new. walkDir (contentFn E c) path d out = (out @ new, Continue) \<and>
         distinct (map fst new) \<and> set (map fst new) = fileSet E c path d"
proof (induction d arbitrary: path out)
  case (File f)
  show ?case
    using walkDir_file [of E c path f out] by (simp add: fileSet_File)
next
  case (Dir n e ks)
  have e: "e = None" using Dir.prems(1) by simp
  have dn: "distinct (map Name ks)" using Dir.prems(2) by simp
  show ?case
  proof (cases "tooDeep c path")
    case True
    then have "walkDir (contentFn E c) path (Dir n e ks) out = (out @ [], Continue)"
      by (simp add: contentFn_dir)
    then show ?thesis
      using fileSet_tooDeep [OF True] by (metis distinct.simps(1) list.simps(8) empty_set)
  next
    case False
    have "\<exists>new. walkDirs (contentFn E c) path ks out = (out @ new, Continue) \<and>
               distinct (map fst new) \<and>
               set (map fst new) = (\<Union>k \<in> set ks. fileSet E c (path @ [Name k]) k)"
    proof (rule walkDirs_content [OF _ dn])
      show "\<exists>new. walkDir (contentFn E c) path k out = (out @ new, Continue) \<and>
                  distinct (map fst new) \<and> set (map fst new) = fileSet E c path k"
        if "k \<in> set ks" for k path out
        using Dir.IH [OF that] Dir.prems that by simp
    qed
    moreover have "walkDir (contentFn E c) path (Dir n e ks) out =
        walkDirs (contentFn E c) path ks out"
      using False e by (simp add: contentFn_dir)
    ultimately show ?thesis
      by (simp add: fileSet_Dir [OF dn])
  qed
qed

lemma nodeAt_valid:
  "validNames d \<Longrightarrow> nodeAt d q = Some k \<Longrightarrow> \<forall>x \<in> set q. CHR ''/'' \<notin> set x"
proof (induction q arbitrary: d)
  case Nil
  then show ?case by simp
next
  case (Cons x q)
  then obtain k' where f: "find (\<lambda>k. Name k = x) (kids d) = Some k'" and n: "nodeAt k' q = Some k"
    by (auto split: option.splits)
  from f have k': "k' \<in> set (kids d)" "Name k' = x"
    by (auto simp: find_Some_iff)
  then have "CHR ''/'' \<notin> set x" "validNames k'"
    using Cons.prems(1) by (cases d; auto)+
  with Cons.IH [OF _ n] show ?case by simp
qed

lemma nodeAt_file_nonempty: "IsDir d \<Longrightarrow> nodeAt d q = Some (File f) \<Longrightarrow> q \<noteq> []"
  by (cases q) auto

text \<open>
  Claim C3. For a tree whose root is a directory, whose directories can all be listed and
  whose entries are named as a file system names them: the tree renderer succeeds and
  prints each path exactly once, the paths printed being those whose every element
  survives the filter and, when \<open>maxDepth\<close> is not negative, whose depth (the root's
  entries have depth 0) is at most \<open>maxDepth\<close>; with \<open>maxDepth = 0\<close> it prints the
  filtered, sorted entries of the root and nothing else. The content walk succeeds and
  writes one section for each file that passes its tests and lies at a depth of at most
  \<open>maxDepth\<close>, and for every such file when \<open>maxDepth\<close> is negative.
\<close>

theorem depth_limit:
  assumes "IsDir root" and "listable root" and "uniqueNames root" and "validNames root"
  shows "snd (writeTree E c [] [] 0 root) = None \<and>
         distinct (map fst (fst (writeTree E c [] [] 0 root))) \<and>
         set (map fst (fst (writeTree E c [] [] 0 root))) =
           {p. shownAt E c (kids root) p \<and> (maxDepth c < 0 \<or> int (length p) - 1 \<le> maxDepth c)} \<and>
         (maxDepth c = 0 \<longrightarrow>
            map fst (fst (writeTree E c [] [] 0 root)) =
            map (\<lambda>e. [Name e]) (sortEntries (filterEntries E c (kids root)))) \<and>
         snd (writeFileContents E c root 0) = None \<and>
         distinct (map fst (fst (writeFileContents E c root 0))) \<and>
         set (map fst (fst (writeFileContents E c root 0))) =
           {p. \<exists>f. nodeAt root p = Some (File f) \<and> \<not> shouldIgnore E (f_name f) c \<and>
                  \<not> (\<not> showHidden c \<and> HasPrefix (f_name f) ''.'') \<and> (\<exists>sz. f_info f = Inr sz) \<and>
                  (maxDepth c < 0 \<or> int (length p) - 1 \<le> maxDepth c)}"
proof -
  obtain out where w: "writeTree E c [] [] 0 root = (out, None)"
    using writeTree_ok [OF assms(2,1), of E c "[]" "[]" 0]
    by (cases "writeTree E c [] [] 0 root") auto
  have t: "distinct (map fst out)"
    "set (map fst out) = {p. shownAt E c (kids root) p \<and> (maxDepth c < 0 \<or> int (length p) - 1 \<le> maxDepth c)}"
    using writeTree_paths [OF assms(3) w] by (simp_all add: depthOK_def)
  have z: "map fst out = map (\<lambda>e. [Name e]) (sortEntries (filterEntries E c (kids root)))"
    if "maxDepth c = 0"
  proof -
    obtain n e ks where r: "root = Dir n e ks" using assms(1) by (cases root) auto
    then have "e = None" using assms(2) by simp
    then have "writeTree E c [] [] 0 root =
        writeEntries E c [] [] 0 (sortEntries (filterEntries E c ks))"
      using r that by (subst writeTree.simps) simp
    then show ?thesis
      using writeEntries_depth0 [OF that, of E "[]" "[]" "sortEntries (filterEntries E c ks)"] w r
      by simp
  qed
  obtain secs where s: "walkDir (contentFn E c) [] root [] = ([] @ secs, Continue)"
    "distinct (map fst secs)" "set (map fst secs) = fileSet E c [] root"
    using walkDir_content [OF assms(2,3), of E c "[]" "[]"] by blast
  have wc: "writeFileContents E c root 0 = (secs, None)"
  proof -
    have "writeFileContents E c root 0 = WalkDir root (contentFn E c) []"
      unfolding writeFileContents_def by auto
    then show ?thesis
      using s(1) by (simp add: WalkDir_def)
  qed
  have fs: "fileSet E c [] root =
           {p. \<exists>f. nodeAt root p = Some (File f) \<and> \<not> shouldIgnore E (f_name f) c \<and>
                  \<not> (\<not> showHidden c \<and> HasPrefix (f_name f) ''.'') \<and> (\<exists>sz. f_info f = Inr sz) \<and>
                  (maxDepth c < 0 \<or> int (length p) - 1 \<le> maxDepth c)}"
  proof (rule set_eqI)
    fix p
    have "emitted E c p f =
      (\<not> shouldIgnore E (f_name f) c \<and> \<not> (\<not> showHidden c \<and> HasPrefix (f_name f) ''.'') \<and>
       (\<exists>sz. f_info f = Inr sz) \<and> (maxDepth c < 0 \<or> int (length p) - 1 \<le> maxDepth c))"
      if n: "nodeAt root p = Some (File f)" for f
    proof -
      have "p \<noteq> []" using nodeAt_file_nonempty [OF assms(1) n] .
      moreover have "\<forall>x \<in> set p. CHR ''/'' \<notin> set x" using nodeAt_valid [OF assms(4) n] .
      ultimately have "int (length (Split (Rel p) (CHR ''/''))) - 1 = int (length p) - 1"
        by (rule depth_valid)
      then show ?thesis
        unfolding emitted_def filteredIn_def by auto
    qed
    then show "p \<in> fileSet E c [] root \<longleftrightarrow> p \<in> {p. \<exists>f. nodeAt root p = Some (File f) \<and> \<not> shouldIgnore E (f_name f) c \<and>
                  \<not> (\<not> showHidden c \<and> HasPrefix (f_name f) ''.'') \<and> (\<exists>sz. f_info f = Inr sz) \<and>
                  (maxDepth c < 0 \<or> int (length p) - 1 \<le> maxDepth c)}"
      unfolding fileSet_def by auto
  qed
  show ?thesis
    using w t z wc s(2) s(3) fs by simp
qed

lemma sampleTree_ok:
  "IsDir sampleTree" "listable sampleTree" "uniqueNames sampleTree" "validNames sampleTree"
  by (simp_all add: sampleTree_def regular_def)

theorem depth_limit_witness:
  "map fst (fst (writeTree sampleEnv shallowConfig [] [] 0 sampleTree)) = [[''build''], [''a.go'']] \<and>
   snd (writeTree sampleEnv shallowConfig [] [] 0 sampleTree) = None \<and>
   snd (writeFileContents sampleEnv shallowConfig sampleTree 0) = None \<and>
   map fst (fst (writeFileContents sampleEnv shallowConfig sampleTree 0)) = [[''a.go'']]"
proof -
  have m: "maxDepth shallowConfig = 0"
    by (simp add: shallowConfig_def)
  have k: "map (\<lambda>e. [Name e]) (sortEntries (filterEntries sampleEnv shallowConfig (kids sampleTree))) =
           [[''build''], [''a.go'']]"
    by code_simp
  have f: "map fst (fst (writeFileContents sampleEnv shallowConfig sampleTree 0)) = [[''a.go'']]"
    by code_simp
  note T = depth_limit [OF sampleTree_ok, of sampleEnv shallowConfig]
  from T m k f show ?thesis by simp
qed

section \<open>The fences of the document\<close>

lemma scanFences_append: "scanFences st (a @ b) = scanFences (scanFences st a) b"
  by (induction a arbitrary: st) auto

lemma docLines_line: "nlfree l \<Longrightarrow> docLines l = [l]"
  by (induction l) (auto simp: nlfree_def)

text \<open>The lines of a text that is followed by a line feed: when the text ends in a carriage
  return, the two bytes are one line ending and the empty last line of the text is not
  a line of the whole.\<close>

lemma docLines_feed:
  "\<exists>ls. ls \<noteq> [] \<and> docLines (s @ CHR 0x0A # t) = ls @ docLines t \<and>
        (docLines s = ls \<or> docLines s = ls @ [[]])"
proof (induction "length s" arbitrary: s rule: less_induct)
  case less
  show ?case
  proof (cases s)
    case Nil
    then show ?thesis by (intro exI [of _ "[[]]"]) simp
  next
    case (Cons c cs)
    have IH: "\<exists>ls. ls \<noteq> [] \<and> docLines (s' @ CHR 0x0A # t) = ls @ docLines t \<and>
                  (docLines s' = ls \<or> docLines s' = ls @ [[]])"
      if "length s' < length s" for s'
      using less that by blast
    from IH [of cs] Cons obtain ls where
      ls: "ls \<noteq> []" "docLines (cs @ CHR 0x0A # t) = ls @ docLines t"
        "docLines cs = ls \<or> docLines cs = ls @ [[]]"
      by auto
    show ?thesis
    proof (cases "c = CHR 0x0A")
      case True
      with ls Cons show ?thesis by (intro exI [of _ "[] # ls"]) auto
    next
      case nlf: False
      show ?thesis
      proof (cases "c = CHR 0x0D")
        case True
        show ?thesis
        proof (cases cs)
          case Nil
          with True Cons show ?thesis by (intro exI [of _ "[[]]"]) simp
        next
          case cs: (Cons c' cs')
          show ?thesis
          proof (cases "c' = CHR 0x0A")
            case False
            with ls Cons True cs show ?thesis by (intro exI [of _ "[] # ls"]) auto
          next
            case lf: True
            from IH [of cs'] Cons cs obtain ms where
              ms: "ms \<noteq> []" "docLines (cs' @ CHR 0x0A # t) = ms @ docLines t"
                "docLines cs' = ms \<or> docLines cs' = ms @ [[]]"
              by auto
            with Cons True cs lf show ?thesis by (intro exI [of _ "[] # ms"]) auto
          qed
        qed
      next
        case False
        obtain l ls' where l: "ls = l # ls'"
          using ls(1) by (cases ls) auto
        with ls Cons nlf False show ?thesis
          by (intro exI [of _ "(c # l) # ls'"]) auto
      qed
    qed
  qed
qed

lemma fenceStep_plain: "fenceChar l = None \<Longrightarrow> fenceStep st l = st"
  by (cases st) (auto simp: fenceStep_def opensFence_def closesFence_def)

lemma fenceChar_Nil: "fenceChar [] = None"
  by (simp add: fenceChar_def afterIndent_def)

lemma fenceStep_Nil: "fenceStep st [] = st"
  by (simp add: fenceStep_plain fenceChar_Nil)

lemma after_nl: "after st (s @ nl @ t) = after (after st s) t"
proof -
  obtain ls where ls: "docLines (s @ CHR 0x0A # t) = ls @ docLines t"
    "docLines s = ls \<or> docLines s = ls @ [[]]"
    using docLines_feed [of s t] by blast
  from ls(2) have "scanFences st (docLines s) = scanFences st ls"
    by (auto simp: scanFences_append fenceStep_Nil)
  then show ?thesis
    by (simp add: after_def nl_def ls(1) scanFences_append)
qed

lemma after_line: "nlfree l \<Longrightarrow> after st l = fenceStep st l"
  by (simp add: after_def docLines_line)


lemma passes_text: "passes st (s @ nl) (after st s)"
  unfolding passes_def using after_nl [of st s] by simp

lemma passes_line: "nlfree l \<Longrightarrow> passes st (l @ nl) (fenceStep st l)"
  using passes_text [of st l] by (simp add: after_line)

lemma passes_plain: "nlfree l \<Longrightarrow> fenceChar l = None \<Longrightarrow> passes st (l @ nl) st"
  using passes_line [of l st] by (simp add: fenceStep_plain)





lemma fenceChar_start:
  "c \<noteq> CHR '' '' \<Longrightarrow> c \<noteq> CHR 0x60 \<Longrightarrow> c \<noteq> CHR ''~'' \<Longrightarrow> fenceChar (c # rest) = None"
  by (simp add: fenceChar_def afterIndent_def)

lemma nlfree_append [simp]: "nlfree (a @ b) = (nlfree a \<and> nlfree b)"
  by (auto simp: nlfree_def)

lemma nlfree_Cons [simp]: "nlfree (c # s) = (c \<noteq> CHR 0x0A \<and> c \<noteq> CHR 0x0D \<and> nlfree s)"
  by (auto simp: nlfree_def)

lemma nlfree_Nil [simp]: "nlfree []"
  by (simp add: nlfree_def)

lemma passes_start:
  "c \<noteq> CHR '' '' \<Longrightarrow> c \<noteq> CHR 0x60 \<Longrightarrow> c \<noteq> CHR ''~'' \<Longrightarrow> nlfree (c # rest) \<Longrightarrow>
   passes st (c # rest @ nl) st"
  using passes_plain [of "c # rest" st] by (simp add: fenceChar_start)







lemma plain_Nil [simp]: "plain []"
  by (simp add: plain_def fenceChar_Nil)



lemma digit_not_nl:
  "k < 10 \<Longrightarrow> ''0123456789'' ! k \<noteq> CHR 0x0A \<and> ''0123456789'' ! k \<noteq> CHR 0x0D"
proof -
  assume "k < 10"
  then have "''0123456789'' ! k \<in> set ''0123456789''"
    by (intro nth_mem) simp
  then show ?thesis by auto
qed

lemma nlfree_natDigits: "nlfree (natDigits n)"
proof (induction n rule: natDigits.induct)
  case (1 n)
  show ?case
  proof (cases "n < 10")
    case True
    then show ?thesis by (subst natDigits.simps) (simp add: digit_not_nl)
  next
    case False
    then have "nlfree (natDigits (n div 10))" using 1 by simp
    moreover have "n mod 10 < 10" by simp
    ultimately show ?thesis
      using False by (subst natDigits.simps) (simp add: digit_not_nl)
  qed
qed

lemma nlfree_FormatInt: "nlfree (FormatInt i)"
  by (simp add: FormatInt_def nlfree_natDigits)











lemma nlfree_Base: "nlfree p \<Longrightarrow> nlfree (Base p)"
proof -
  assume p: "nlfree p"
  let ?q = "rev (dropWhile (\<lambda>c. c = CHR ''/'') (rev p))"
  have "set (takeWhile (\<lambda>c. c \<noteq> CHR ''/'') (rev ?q)) \<subseteq> set p"
    by (metis (no_types, lifting) rev_rev_ident set_dropWhileD set_rev set_takeWhileD subsetI)
  then have "nlfree (rev (takeWhile (\<lambda>c. c \<noteq> CHR ''/'') (rev ?q)))"
    using p by (auto simp: nlfree_def)
  then show ?thesis
    by (simp add: Base_def Let_def)
qed









lemma written_append: "written (xs @ ys) = written xs @ written ys"
  by (simp add: written_def)









































text \<open>
  The last hypothesis cannot be dropped. A run in content mode in a directory that
  holds \<open>Makefile\<close>, with the output \<open>README.md\<close> in the same directory and not ignored,
  meets the other hypotheses. The content walk reads \<open>README.md\<close> as it is at that
  moment and embeds the fences the program has written so far; the fence written after
  these bytes opens a block that is never closed.
\<close>

lemma makeTree_created:
  "Create sampleEnv (outputFile contentConfig) (Some [''README.md'']) makeTree =
     Inr (Dir ''proj'' None [regular ''Makefile'' (''all:'' @ nl), File (newFile ''README.md'')])"
  by (simp add: Create_def sampleEnv_def makeTree_def putEntry_def regular_def contentConfig_def
      defaultConfig_def)

lemma makeTree_hypotheses:
  "cleanEnv sampleEnv contentConfig"
  "shownClean sampleEnv contentConfig 0
     (Dir ''proj'' None [regular ''Makefile'' (''all:'' @ nl), File (newFile ''README.md'')])"
  "safeFiles sampleEnv contentConfig []
     (Dir ''proj'' None [regular ''Makefile'' (''all:'' @ nl), File (newFile ''README.md'')])"
  "\<not> outputNotEmbedded sampleEnv contentConfig (Some [''README.md''])"
proof -
  show "cleanEnv sampleEnv contentConfig"
    by (simp add: cleanEnv_def sampleEnv_def contentConfig_def defaultConfig_def fixed1_def
        Let_def nlfree_FormatInt nlfree_Base)
  show "shownClean sampleEnv contentConfig 0
     (Dir ''proj'' None [regular ''Makefile'' (''all:'' @ nl), File (newFile ''README.md'')])"
    by (simp add: regular_def newFile_def)
  show "safeFiles sampleEnv contentConfig []
     (Dir ''proj'' None [regular ''Makefile'' (''all:'' @ nl), File (newFile ''README.md'')])"
    by (simp add: safeLeaf_def regular_def newFile_def nl_def closesFence_def fenceChar_def
        afterIndent_def shownPath_def Rel_def)
  have "\<not> shouldIgnore sampleEnv ''README.md'' contentConfig"
    by (simp add: shouldIgnore_def shouldIgnoreLoop_iff contentConfig_def defaultConfig_def
        sampleEnv_def globMatch_def TrimSpace_examples)
  then show "\<not> outputNotEmbedded sampleEnv contentConfig (Some [''README.md''])"
    by (simp add: outputNotEmbedded_def outputSkipped_def tooDeep_def HasPrefix_def
        contentConfig_def defaultConfig_def)
qed

lemma output_embedded_leaves_open:
  "snd (generateReadme sampleEnv contentConfig (Some [''README.md'']) makeTree) = None \<and>
   \<not> fencesClosed (fst (generateReadme sampleEnv contentConfig (Some [''README.md'']) makeTree))"
  by code_simp

section \<open>Statistics and init\<close>

lemma walkDirs_count:
  assumes "\<And>k path a b. k \<in> set ds \<Longrightarrow>
             walkDir countFn path k (a, b) = ((a + int (countFiles k), b + int (countDirs k)), Continue)"
  shows "walkDirs countFn path ds (a, b) =
           ((a + int (sum_list (map countFiles ds)), b + int (sum_list (map countDirs ds))), Continue)"
  using assms
proof (induction ds arbitrary: a b)
  case Nil
  then show ?case by simp
next
  case (Cons d ds)
  have "walkDir countFn (path @ [Name d]) d (a, b) =
          ((a + int (countFiles d), b + int (countDirs d)), Continue)"
    using Cons.prems by simp
  moreover have "walkDirs countFn path ds (a + int (countFiles d), b + int (countDirs d)) =
      ((a + int (countFiles d) + int (sum_list (map countFiles ds)),
        b + int (countDirs d) + int (sum_list (map countDirs ds))), Continue)"
    using Cons.IH Cons.prems by simp
  ultimately show ?case by simp
qed

lemma countFn_simps:
  "countFn p (File f) None (a, b) = ((a + 1, b), Continue)"
  "countFn p (Dir n e ks) None (a, b) = ((a, b + 1), Continue)"
  "countFn p d (Some err) (a, b) = ((a, b), Continue)"
  by (simp_all add: countFn_def)

lemma walkDir_count:
  "walkDir countFn path d (a, b) = ((a + int (countFiles d), b + int (countDirs d)), Continue)"
proof (induction d arbitrary: path a b)
  case (File f)
  show ?case by (simp add: countFn_simps)
next
  case (Dir n e ks)
  have w: "\<And>p a b. walkDirs countFn p ks (a, b) =
      ((a + int (sum_list (map countFiles ks)), b + int (sum_list (map countDirs ks))), Continue)"
    using walkDirs_count [of ks] Dir.IH by simp
  show ?case
    by (cases e) (simp_all add: countFn_simps w)
qed


lemma WalkDir_count:
  "fst (WalkDir root countFn (0, 0)) = (int (countFiles root), int (countDirs root))"
  by (simp add: WalkDir_def walkDir_count)

lemma count_below_root:
  "(case fst (WalkDir (Dir n e ks) countFn (0, 0)) of
      (fileCount, dirCount) \<Rightarrow> G fileCount (dirCount - 1)) =
   G (int (sum_list (map countFiles ks))) (int (sum_list (map countDirs ks)))"
  by (simp add: WalkDir_count)

text \<open>
  Claim C7. The counting walk takes no configuration: it counts every file and every
  directory of the tree, and the number of directories written is that of the
  directories below the root.
\<close>

theorem stats_count_everything:
  "fst (WalkDir root countFn (0, 0)) = (int (countFiles root), int (countDirs root)) \<and>
   writeProjectInfo dir (Dir n e ks) =
     ''## '' @ glyphChart @ '' Project Overview'' @ nl @ nl @
     ''- **Total Files:** '' @ FormatInt (int (sum_list (map countFiles ks))) @ nl @
     ''- **Total Directories:** '' @ FormatInt (int (sum_list (map countDirs ks))) @ nl @
     ''- **Project Root:** `'' @ dir @ ''`'' @ nl @ nl"
proof
  show "fst (WalkDir root countFn (0, 0)) = (int (countFiles root), int (countDirs root))"
    by (rule WalkDir_count)
  show "writeProjectInfo dir (Dir n e ks) =
     ''## '' @ glyphChart @ '' Project Overview'' @ nl @ nl @
     ''- **Total Files:** '' @ FormatInt (int (sum_list (map countFiles ks))) @ nl @
     ''- **Total Directories:** '' @ FormatInt (int (sum_list (map countDirs ks))) @ nl @
     ''- **Project Root:** `'' @ dir @ ''`'' @ nl @ nl"
    unfolding writeProjectInfo_def by (rule count_below_root)
qed

lemma FormatInt_digit: "0 \<le> i \<Longrightarrow> i < 10 \<Longrightarrow> FormatInt i = [''0123456789'' ! nat i]"
  by (simp add: FormatInt_def natDigits_small)

theorem stats_count_everything_witness:
  "writeProjectInfo ''.'' sampleTree =
     ''## '' @ glyphChart @ '' Project Overview'' @ nl @ nl @
     ''- **Total Files:** 4'' @ nl @
     ''- **Total Directories:** 3'' @ nl @
     ''- **Project Root:** `.`'' @ nl @ nl \<and>
   map fst (fst (writeTree sampleEnv defaultConfig [] [] 0 sampleTree)) =
     [[''build''], [''build'', ''sub'']]"
proof -
  let ?ks = "[Dir ''.git'' None [regular ''config'' ''[core]''],
          regular ''a.go'' (''package a'' @ nl),
          Dir ''build'' None
            [regular ''out.log'' ''done'',
             Dir ''sub'' None [regular ''deep.txt'' ''deep'']]]"
  have t: "map fst (fst (writeTree sampleEnv defaultConfig [] [] 0 sampleTree)) =
      [[''build''], [''build'', ''sub'']]"
    by code_simp
  have c: "FormatInt (int (sum_list (map countFiles ?ks))) = ''4''"
          "FormatInt (int (sum_list (map countDirs ?ks))) = ''3''"
    by code_simp+
  have "writeProjectInfo ''.'' sampleTree =
     ''## '' @ glyphChart @ '' Project Overview'' @ nl @ nl @
     ''- **Total Files:** '' @ ''4'' @ nl @
     ''- **Total Directories:** '' @ ''3'' @ nl @
     ''- **Project Root:** `'' @ ''.'' @ ''`'' @ nl @ nl"
    using stats_count_everything [of sampleTree "''.''" "''proj''" None ?ks]
    unfolding c sampleTree_def by (rule conjunct2)
  then show ?thesis
    using t by simp
qed

text \<open>
  Claim C8. When \<open>.foldermd.ignore\<close> exists, \<open>createIgnoreFile\<close> returns the error, the exit
  status is 1, and the directory is as before: no call of \<open>os.WriteFile\<close> is made and the
  file keeps its bytes.
\<close>

theorem init_refuses_existing:
  assumes "files w ''.foldermd.ignore'' = Some c"
  shows "createIgnoreFile w = (Some ''file .foldermd.ignore already exists'', w) \<and>
         initExit w = (1, w)"
  using assms by (simp add: createIgnoreFile_def initExit_def Stat_def)

theorem init_refuses_existing_witness:
  "createIgnoreFile sampleWorld = (Some ''file .foldermd.ignore already exists'', sampleWorld) \<and>
   initExit sampleWorld = (1, sampleWorld) \<and>
   files (snd (initExit sampleWorld)) ''.foldermd.ignore'' = Some ''*.bak'' \<and>
   writes (snd (initExit sampleWorld)) = []"
proof -
  have f: "files sampleWorld ''.foldermd.ignore'' = Some ''*.bak''"
    by (simp add: sampleWorld_def)
  show ?thesis
    using init_refuses_existing [OF f] by (simp add: sampleWorld_def)
qed

end

